theory Spec2Isabelle
  imports Complex_Main "HOL-Library.Sublist"
begin

section \<open>JavaScript strings and regular-expression replacement\<close>

text \<open>
  A JavaScript string is modelled as a \<^typ>\<open>string\<close>, one \<^typ>\<open>char\<close> per code unit.
  The patterns of the renderer only distinguish ASCII characters, the line terminators
  and the white space of \<open>trim\<close>; of these the code units U+0000 to U+00FF are covered.
\<close>

definition is_digit :: "char \<Rightarrow> bool" where
  \<comment> \<open>the class \<open>\d\<close>\<close>
  "is_digit c = (c \<in> set ''0123456789'')"

definition is_word :: "char \<Rightarrow> bool" where
  \<comment> \<open>the class \<open>\w\<close>\<close>
  "is_word c = (c \<in> set ''abcdefghijklmnopqrstuvwxyzABCDEFGHIJKLMNOPQRSTUVWXYZ'' \<or> is_digit c
     \<or> c = CHR ''_'')"

definition is_line_terminator :: "char \<Rightarrow> bool" where
  \<comment> \<open>what \<open>.\<close> does not match\<close>
  "is_line_terminator c = (c = CHR 0x0A \<or> c = CHR 0x0D)"

definition is_space :: "char \<Rightarrow> bool" where
  \<comment> \<open>what \<open>String.prototype.trim\<close> strips\<close>
  "is_space c = (c = CHR 0x09 \<or> c = CHR 0x0A \<or> c = CHR 0x0B \<or> c = CHR 0x0C \<or> c = CHR 0x0D
     \<or> c = CHR 0x20 \<or> c = CHR 0xA0)"

definition trim :: "string \<Rightarrow> string" where
  "trim s = rev (dropWhile is_space (rev (dropWhile is_space s)))"

text \<open>
  A regular expression is represented by its anchored matcher: applied to the text that
  starts at the current position it returns the captured groups and the text that follows
  the match, or \<open>None\<close> when the pattern does not match there. None of the patterns below
  looks behind the current position.
\<close>

type_synonym 'g regex = "string \<Rightarrow> ('g \<times> string) option"

datatype 'g segment = Lit char | Match 'g

text \<open>
  The scan of a global (\<open>/g\<close>) replace: the leftmost match is taken, the scan resumes
  after it, and a character at which nothing matches is copied. After an empty match
  the scan advances by one code unit.
\<close>

function scan :: "'g regex \<Rightarrow> string \<Rightarrow> 'g segment list" where
  "scan re s =
     (case re s of
        Some (g, rest) \<Rightarrow>
          if length rest < length s then Match g # scan re rest
          else Match g # (case s of [] \<Rightarrow> [] | c # cs \<Rightarrow> Lit c # scan re cs)
      | None \<Rightarrow> (case s of [] \<Rightarrow> [] | c # cs \<Rightarrow> Lit c # scan re cs))"
  by pat_completeness auto
termination
  by (relation "measure (\<lambda>(re, s). length s)") auto

declare scan.simps [simp del]

definition replace_g :: "'g regex \<Rightarrow> ('g \<Rightarrow> string) \<Rightarrow> string \<Rightarrow> string" where
  \<comment> \<open>\<open>s.replace(/re/g, f)\<close>\<close>
  "replace_g re f s = concat (map (\<lambda>seg. case seg of Lit c \<Rightarrow> [c] | Match g \<Rightarrow> f g) (scan re s))"

fun lazy_until :: "(char \<Rightarrow> bool) \<Rightarrow> string \<Rightarrow> string \<Rightarrow> (string \<times> string) option" where
  \<comment> \<open>a lazy group \<open>(X*?)\<close> followed by the literal \<open>d\<close>: the shortest run of characters
      of class \<open>X\<close> after which \<open>d\<close> stands; the group and the text after \<open>d\<close>\<close>
  "lazy_until X d [] = (if d = [] then Some ([], []) else None)"
| "lazy_until X d (c # cs) =
     (if prefix d (c # cs) then Some ([], drop (length d) (c # cs))
      else if X c then
        (case lazy_until X d cs of None \<Rightarrow> None | Some (g, rest) \<Rightarrow> Some (c # g, rest))
      else None)"

definition fence_re :: "(string \<times> string) regex" where
  \<comment> \<open>\<open>/```(\w*)\n([\s\S]*?)```/\<close>\<close>
  "fence_re s =
     (if prefix ''```'' s then
        (let r = drop 3 s; lang = takeWhile is_word r in
         case dropWhile is_word r of
           [] \<Rightarrow> None
         | c # r' \<Rightarrow>
             if c = CHR 0x0A then
               (case lazy_until (\<lambda>_. True) ''```'' r' of
                  None \<Rightarrow> None
                | Some (code, rest) \<Rightarrow> Some ((lang, code), rest))
             else None)
      else None)"

definition bold_re :: "string regex" where
  \<comment> \<open>\<open>/\*\*(.*?)\*\*/\<close>\<close>
  "bold_re s =
     (if prefix ''**'' s then lazy_until (\<lambda>c. \<not> is_line_terminator c) ''**'' (drop 2 s)
      else None)"

definition italic_re :: "string regex" where
  \<comment> \<open>\<open>/\*(.*?)\*/\<close>\<close>
  "italic_re s =
     (if prefix ''*'' s then lazy_until (\<lambda>c. \<not> is_line_terminator c) ''*'' (drop 1 s)
      else None)"

definition greedy1 :: "(char \<Rightarrow> bool) \<Rightarrow> char \<Rightarrow> string \<Rightarrow> (string \<times> string) option" where
  \<comment> \<open>a greedy group \<open>([^d]+)\<close> followed by the character \<open>d\<close> that the class excludes:
      only the longest run can be followed by \<open>d\<close>\<close>
  "greedy1 X d s =
     (let g = takeWhile X s in
      case dropWhile X s of
        [] \<Rightarrow> None
      | c # rest \<Rightarrow> if g \<noteq> [] \<and> c = d then Some (g, rest) else None)"

definition code_re :: "string regex" where
  \<comment> \<open>\<open>/`([^`]+)`/\<close>\<close>
  "code_re s =
     (if prefix ''`'' s then greedy1 (\<lambda>c. c \<noteq> CHR ''`'') (CHR ''`'') (drop 1 s) else None)"

definition link_re :: "(string \<times> string) regex" where
  \<comment> \<open>\<open>/\[([^\]]+)\]\(([^)]+)\)/\<close>\<close>
  "link_re s =
     (if prefix ''['' s then
        (case greedy1 (\<lambda>c. c \<noteq> CHR '']'') (CHR '']'') (drop 1 s) of
           None \<Rightarrow> None
         | Some (txt, r) \<Rightarrow>
             if prefix ''('' r then
               (case greedy1 (\<lambda>c. c \<noteq> CHR '')'') (CHR '')'') (drop 1 r) of
                  None \<Rightarrow> None
                | Some (url, rest) \<Rightarrow> Some ((txt, url), rest))
             else None)
      else None)"

definition placeholder_re :: "string regex" where
  \<comment> \<open>\<open>/__CODEBLOCK_(\d+)__/\<close>\<close>
  "placeholder_re s =
     (if prefix ''__CODEBLOCK_'' s then
        (case greedy1 is_digit (CHR ''_'') (drop 12 s) of
           None \<Rightarrow> None
         | Some (index, r) \<Rightarrow> if prefix ''_'' r then Some (index, drop 1 r) else None)
      else None)"

fun decimal :: "nat \<Rightarrow> string" where
  \<comment> \<open>a non-negative integer in a template literal\<close>
  "decimal n =
     (if n < 10 then [''0123456789'' ! n] else decimal (n div 10) @ [''0123456789'' ! (n mod 10)])"

declare decimal.simps [simp del]

definition digit_value :: "char \<Rightarrow> nat" where
  "digit_value c = of_char c - 48"

definition parseInt :: "string \<Rightarrow> nat" where
  \<comment> \<open>\<open>parseInt(index, 10)\<close> on a non-empty run of decimal digits\<close>
  "parseInt ds = foldl (\<lambda>a c. 10 * a + digit_value c) 0 ds"


section \<open>The renderer\<close>

definition replace_char :: "char \<Rightarrow> string \<Rightarrow> string \<Rightarrow> string" where
  \<comment> \<open>\<open>s.replace(/c/g, r)\<close> for a single character\<close>
  "replace_char c r s = concat (map (\<lambda>x. if x = c then r else [x]) s)"

definition escapeHTML :: "string \<Rightarrow> string" where
  "escapeHTML html = replace_char (CHR ''>'') ''&gt;'' (replace_char (CHR ''<'') ''&lt;'' html)"

definition code_block :: "string \<Rightarrow> string \<Rightarrow> string" where
  \<comment> \<open>the markup the fence callback builds from the language tag and the escaped body\<close>
  "code_block lang escapedCode =
     ''<pre><code class=\"language-'' @ (if lang = [] then ''plaintext'' else lang)
       @ '' hljs\">'' @ escapedCode @ ''</code></pre>''"

definition token :: "nat \<Rightarrow> string" where
  "token n = ''__CODEBLOCK_'' @ decimal n @ ''__''"

fun extract_blocks :: "(string \<times> string) segment list \<Rightarrow> string list \<Rightarrow> string \<times> string list" where
  \<comment> \<open>step 1: the fence callback, run over the matches in order; it appends to
      \<open>placeholders\<close> and leaves a token in the text\<close>
  "extract_blocks [] placeholders = ([], placeholders)"
| "extract_blocks (Lit c # segs) placeholders =
     (let (out, ps) = extract_blocks segs placeholders in (c # out, ps))"
| "extract_blocks (Match (lang, code) # segs) placeholders =
     (let escapedCode = escapeHTML (trim code);
          placeholder = code_block lang escapedCode;
          placeholders' = placeholders @ [placeholder];
          (out, ps) = extract_blocks segs placeholders'
      in (token (length placeholders' - 1) @ out, ps))"

definition restore :: "string list \<Rightarrow> string \<Rightarrow> string" where
  \<comment> \<open>step 4's callback: \<open>placeholders[parseInt(index, 10)]\<close>; an index out of range
      reads \<open>undefined\<close>, which the replace turns into the text \<open>undefined\<close>\<close>
  "restore placeholders index =
     (let i = parseInt index in
      if i < length placeholders then placeholders ! i else ''undefined'')"

definition link_template :: "string \<times> string \<Rightarrow> string" where
  \<comment> \<open>the replacement \<open><a href="$2" target="_blank" rel="noopener noreferrer">$1</a>\<close>\<close>
  "link_template g =
     ''<a href=\"'' @ snd g @ ''\" target=\"_blank\" rel=\"noopener noreferrer\">'' @ fst g @ ''</a>''"

definition inline :: "string \<Rightarrow> string" where
  \<comment> \<open>step 3: bold, italic, inline code, links, in this order\<close>
  "inline s =
     replace_g link_re link_template
       (replace_g code_re (\<lambda>g. ''<code>'' @ g @ ''</code>'')
          (replace_g italic_re (\<lambda>g. ''<em>'' @ g @ ''</em>'')
             (replace_g bold_re (\<lambda>g. ''<strong>'' @ g @ ''</strong>'') s)))"

definition parseMarkdown :: "string \<Rightarrow> string" where
  "parseMarkdown text =
     (let (processedText, placeholders) = extract_blocks (scan fence_re text) [];
          processedText = escapeHTML processedText;
          processedText = inline processedText
      in replace_g placeholder_re (restore placeholders) processedText)"

text \<open>The renderer of \<open>index.tsx\<close>: it escapes first and rewrites fences in place.\<close>

definition parseMarkdown_index :: "string \<Rightarrow> string" where
  "parseMarkdown_index text =
     (let escapedText = replace_char (CHR ''>'') ''&gt;'' (replace_char (CHR ''<'') ''&lt;'' text)
      in replace_g code_re (\<lambda>g. ''<code>'' @ g @ ''</code>'')
           (replace_g italic_re (\<lambda>g. ''<em>'' @ g @ ''</em>'')
              (replace_g bold_re (\<lambda>g. ''<strong>'' @ g @ ''</strong>'')
                 (replace_g fence_re (\<lambda>(lang, code). code_block lang (trim code)) escapedText))))"


section \<open>Sessions, settings and the local store\<close>

datatype role = User | Model

text \<open>Every message the code builds has exactly one part; \<open>parts_text\<close> is \<open>parts[0].text\<close>.\<close>

record message =
  id_message :: string
  role :: role
  parts_text :: string
  timestamp :: string

record chat_session =
  id_session :: string
  title :: string
  messages :: "message list"
  createdAt :: string
  updatedAt :: string
  isPinned :: bool
  isArchived :: bool
  model :: string
  temperature :: real
  maxTokens :: nat

record settings =
  model_setting :: string
  temperature_setting :: real
  maxTokens_setting :: nat
  theme :: string
  fontSize :: string
  messageDensity :: string
  language :: string
  dataPrivacy :: bool
  autoSave :: bool
  keyboardShortcuts :: bool

definition default_settings :: settings where
  \<comment> \<open>the initial value of the global \<open>settings\<close>\<close>
  "default_settings =
     \<lparr>model_setting = ''gemini-2.5-flash'', temperature_setting = 7 / 10, maxTokens_setting = 1000,
      theme = ''dark'', fontSize = ''medium'', messageDensity = ''comfortable'', language = ''auto'',
      dataPrivacy = True, autoSave = True, keyboardShortcuts = True\<rparr>"

datatype error = SyntaxError

text \<open>
  \<open>JSON.parse\<close> and \<open>JSON.stringify\<close> belong to the runtime. Of the JSON grammar the model
  fixes what every JSON text obeys: after white space it starts with the first character
  of a value. Decoding the texts that do is left to the parameter \<open>decode\<close>, which answers
  \<open>None\<close> for a text that is not JSON. A text that is not JSON makes \<open>JSON.parse\<close> throw.
\<close>

definition json_space :: "char \<Rightarrow> bool" where
  "json_space c = (c = CHR 0x20 \<or> c = CHR 0x09 \<or> c = CHR 0x0A \<or> c = CHR 0x0D)"

definition json_value_start :: "char \<Rightarrow> bool" where
  "json_value_start c = (c \<in> set ''{[\"-0123456789tfn'')"

definition JSON_parse :: "(string \<Rightarrow> 'a option) \<Rightarrow> string \<Rightarrow> error + 'a" where
  "JSON_parse decode s =
     (case dropWhile json_space s of
        [] \<Rightarrow> Inl SyntaxError
      | c # _ \<Rightarrow>
          if json_value_start c then
            (case decode s of None \<Rightarrow> Inl SyntaxError | Some v \<Rightarrow> Inr v)
          else Inl SyntaxError)"

record runtime =
  decode_history :: "string \<Rightarrow> chat_session list option"
  decode_settings :: "string \<Rightarrow> settings option"
  JSON_stringify :: "chat_session list \<Rightarrow> string"
  queryMessageText :: "string \<Rightarrow> string"
    \<comment> \<open>for a rendered fragment, \<open>dataset.rawText || textContent\<close> of its first element of
        class \<open>message-text\<close>, or the empty string when it has none\<close>


section \<open>The application state\<close>

text \<open>
  The body of a message's content wrapper: the \<open>message-text\<close> child that \<open>appendMessage\<close>
  builds from a string (its \<open>innerHTML\<close> is the rendering of the raw text kept in its
  \<open>dataset.rawText\<close>), the loading indicator, the fragment last assigned to the wrapper's
  \<open>innerHTML\<close>, or the text last assigned to its \<open>textContent\<close>.
\<close>

datatype body = MessageText string | LoadingIndicator | InnerHTML string | TextContent string

record element =
  role_of :: role
  messageId :: string
  body :: body
  rawText :: "string option"
    \<comment> \<open>\<open>dataset.rawText\<close> of the content wrapper itself\<close>
  decorated :: bool
    \<comment> \<open>\<open>processCodeBlocks\<close> has run over the current body\<close>

text \<open>
  A model turn in flight: the call of \<open>handleFormSubmit\<close> or \<open>handleRegenerate\<close> that is
  suspended on its stream, with the variables it closes over.
\<close>

record turn =
  loadingIndicator :: nat
  fullResponse :: string
  prompt :: string
  regenerating :: bool

record state =
  isAwaitingResponse :: bool
  currentChatId :: "string option"
  chatHistory :: "chat_session list"
  settings_of :: settings
  localStorage :: "string \<rightharpoonup> string"
  chatInput :: string
  contextMenuTarget :: "string option"
    \<comment> \<open>the \<open>data-chat-id\<close> of the history item the context menu was opened on\<close>
  elements :: "nat \<rightharpoonup> element"
    \<comment> \<open>the message elements ever created, by reference\<close>
  chatContainer :: "nat list"
    \<comment> \<open>the message elements attached to the chat container, in document order\<close>
  nextRef :: nat
  turns :: "turn list"

record clock =
  dateNow :: nat
  toISOString :: string


section \<open>The session store\<close>

definition loadHistoryFromStorage :: "runtime \<Rightarrow> state \<Rightarrow> error + state" where
  "loadHistoryFromStorage rt s =
     (case localStorage s ''chatHistory'' of
        None \<Rightarrow> Inr (s\<lparr>chatHistory := []\<rparr>)
      | Some savedHistory \<Rightarrow>
          if savedHistory = [] then Inr (s\<lparr>chatHistory := []\<rparr>)
          else (case JSON_parse (decode_history rt) savedHistory of
                  Inl e \<Rightarrow> Inl e
                | Inr h \<Rightarrow> Inr (s\<lparr>chatHistory := h\<rparr>)))"

definition loadSettings :: "runtime \<Rightarrow> state \<Rightarrow> error + state" where
  "loadSettings rt s =
     (case localStorage s ''settings'' of
        None \<Rightarrow> Inr s
      | Some savedSettings \<Rightarrow>
          if savedSettings = [] then Inr s
          else (case JSON_parse (decode_settings rt) savedSettings of
                  Inl e \<Rightarrow> Inl e
                | Inr v \<Rightarrow> Inr (s\<lparr>settings_of := v\<rparr>)))"

definition saveHistoryToStorage :: "runtime \<Rightarrow> state \<Rightarrow> state" where
  "saveHistoryToStorage rt s =
     s\<lparr>localStorage := (localStorage s)(''chatHistory'' \<mapsto> JSON_stringify rt (chatHistory s))\<rparr>"

definition startNewChat :: "state \<Rightarrow> state" where
  "startNewChat s = s\<lparr>currentChatId := None, chatContainer := []\<rparr>"

definition hideContextMenu :: "state \<Rightarrow> state" where
  "hideContextMenu s = s\<lparr>contextMenuTarget := None\<rparr>"

definition deleteChat :: "runtime \<Rightarrow> bool \<Rightarrow> state \<Rightarrow> state" where
  \<comment> \<open>the second argument is the answer of the \<open>confirm\<close> dialog\<close>
  "deleteChat rt confirm s =
     (case contextMenuTarget s of
        None \<Rightarrow> s
      | Some chatId \<Rightarrow>
          if chatId = [] then s
          else if confirm then
            (let s1 = s\<lparr>chatHistory := filter (\<lambda>x. id_session x \<noteq> chatId) (chatHistory s)\<rparr>;
                 s2 = saveHistoryToStorage rt s1;
                 s3 = (if currentChatId s2 = Some chatId then startNewChat s2 else s2)
             in hideContextMenu s3)
          else hideContextMenu s)"

definition text_of :: "runtime \<Rightarrow> element \<Rightarrow> string" where
  \<comment> \<open>\<open>contentEl?.dataset.rawText || contentEl?.textContent || ''\<close> for the element's
      first descendant of class \<open>message-text\<close>\<close>
  "text_of rt e =
     (case body e of
        MessageText raw \<Rightarrow> raw
      | LoadingIndicator \<Rightarrow> []
      | InnerHTML html \<Rightarrow> queryMessageText rt html
      | TextContent t \<Rightarrow> [])"

definition getMessagesFromDOM :: "runtime \<Rightarrow> clock \<Rightarrow> state \<Rightarrow> message list" where
  "getMessagesFromDOM rt clk s =
     concat (map (\<lambda>r. case elements s r of
                         None \<Rightarrow> []
                       | Some e \<Rightarrow>
                           if text_of rt e \<noteq> [] then
                             [\<lparr>id_message = messageId e, role = role_of e, parts_text = text_of rt e,
                               timestamp = toISOString clk\<rparr>]
                           else [])
                 (chatContainer s))"

fun update_session :: "string \<Rightarrow> (chat_session \<Rightarrow> chat_session) \<Rightarrow> chat_session list \<Rightarrow> chat_session list" where
  \<comment> \<open>\<open>chatHistory.find(s => s.id === id)\<close> followed by an update of the session found\<close>
  "update_session cid f [] = []"
| "update_session cid f (x # xs) = (if id_session x = cid then f x # xs else x # update_session cid f xs)"

definition saveCurrentChat :: "runtime \<Rightarrow> clock \<Rightarrow> string \<Rightarrow> state \<Rightarrow> state" where
  \<comment> \<open>\<open>if (currentChatId)\<close> is false for \<open>null\<close> and for the empty string\<close>
  "saveCurrentChat rt clk p s =
     (let msgs = getMessagesFromDOM rt clk s in
      if msgs = [] then s
      else
        saveHistoryToStorage rt
          (if currentChatId s \<noteq> None \<and> currentChatId s \<noteq> Some [] then
             s\<lparr>chatHistory :=
                 update_session (the (currentChatId s))
                   (\<lambda>x. x\<lparr>messages := msgs, updatedAt := toISOString clk\<rparr>) (chatHistory s)\<rparr>
           else
             (let cid = ''chat_'' @ decimal (dateNow clk);
                  t = (if length p > 30 then take 27 p @ ''...'' else p);
                  now = toISOString clk
              in s\<lparr>currentChatId := Some cid,
                   chatHistory :=
                     \<lparr>id_session = cid, title = t, messages = msgs, createdAt = now, updatedAt = now,
                      isPinned = False, isArchived = False, model = model_setting (settings_of s),
                      temperature = temperature_setting (settings_of s),
                      maxTokens = maxTokens_setting (settings_of s)\<rparr> # chatHistory s\<rparr>)))"


section \<open>The conversation controller\<close>

definition appendMessage :: "role \<Rightarrow> body \<Rightarrow> string \<Rightarrow> state \<Rightarrow> state" where
  \<comment> \<open>the content wrapper it returns is the element at the old \<open>nextRef\<close>;
      \<open>processCodeBlocks\<close> runs over it before it returns\<close>
  "appendMessage r b mid s =
     s\<lparr>elements := (elements s)(nextRef s \<mapsto>
            \<lparr>role_of = r, messageId = mid, body = b, rawText = None, decorated = True\<rparr>),
       chatContainer := chatContainer s @ [nextRef s],
       nextRef := Suc (nextRef s)\<rparr>"

definition clearDraft :: "state \<Rightarrow> state" where
  "clearDraft s = s\<lparr>localStorage := (localStorage s)(''draftMessage'' := None)\<rparr>"

definition setFormState :: "state \<Rightarrow> state" where
  \<comment> \<open>of its effects only \<open>chatInput.value = ''\<close> is kept\<close>
  "setFormState s = s\<lparr>chatInput := []\<rparr>"

definition with_element :: "nat \<Rightarrow> (element \<Rightarrow> element) \<Rightarrow> state \<Rightarrow> state" where
  "with_element r f s =
     (case elements s r of None \<Rightarrow> s | Some e \<Rightarrow> s\<lparr>elements := (elements s)(r \<mapsto> f e)\<rparr>)"

definition start_turn :: "string \<Rightarrow> bool \<Rightarrow> string \<Rightarrow> state \<Rightarrow> state" where
  \<comment> \<open>the placeholder is appended and the call suspends on \<open>chat.sendMessageStream\<close>\<close>
  "start_turn p regen mid s =
     (let r = nextRef s;
          s1 = appendMessage Model LoadingIndicator mid s
      in s1\<lparr>turns := turns s1 @
            [\<lparr>loadingIndicator = r, fullResponse = [], prompt = p, regenerating = regen\<rparr>]\<rparr>)"

definition handleFormSubmit :: "string \<Rightarrow> string \<Rightarrow> state \<Rightarrow> state" where
  \<comment> \<open>up to the first \<open>await\<close>; the arguments are the ids \<open>generateId()\<close> returns\<close>
  "handleFormSubmit mid1 mid2 s =
     (if isAwaitingResponse s then s
      else
        (let p = trim (chatInput s) in
         if p = [] then s
         else
           (let s1 = setFormState (s\<lparr>isAwaitingResponse := True\<rparr>);
                s2 = clearDraft s1;
                s3 = appendMessage User (MessageText p) mid1 s2
            in start_turn p False mid2 s3)))"

definition remove_last_model :: "state \<Rightarrow> state" where
  \<comment> \<open>\<open>chatContainer.querySelector('.model-message:last-of-type')\<close>, removed when found:
      the last child of the container, when it is a model message\<close>
  "remove_last_model s =
     (if chatContainer s = [] then s
      else
        (case elements s (last (chatContainer s)) of
           None \<Rightarrow> s
         | Some e \<Rightarrow>
             if role_of e = Model then s\<lparr>chatContainer := butlast (chatContainer s)\<rparr> else s))"

definition handleRegenerate :: "runtime \<Rightarrow> clock \<Rightarrow> string \<Rightarrow> state \<Rightarrow> state" where
  \<comment> \<open>up to the first \<open>await\<close>\<close>
  "handleRegenerate rt clk mid s =
     (if isAwaitingResponse s then s
      else
        (let users = filter (\<lambda>m. role m = User) (getMessagesFromDOM rt clk s) in
         if users = [] then s
         else
           (let lastUserMessage = last users;
                s1 = remove_last_model s;
                s2 = setFormState (s1\<lparr>isAwaitingResponse := True\<rparr>)
            in start_turn (parts_text lastUserMessage) True mid s2)))"

definition on_chunk :: "turn \<Rightarrow> string \<Rightarrow> state \<Rightarrow> state" where
  \<comment> \<open>the body of the \<open>for await\<close> loop\<close>
  "on_chunk t chunk s =
     (let full = fullResponse t @ chunk;
          s1 = with_element (loadingIndicator t)
                 (\<lambda>e. e\<lparr>body := InnerHTML (parseMarkdown full), decorated := False\<rparr>) s
      in s1\<lparr>turns := map (\<lambda>u. if loadingIndicator u = loadingIndicator t
                                then u\<lparr>fullResponse := full\<rparr> else u) (turns s1)\<rparr>)"

definition finally_block :: "turn \<Rightarrow> state \<Rightarrow> state" where
  \<comment> \<open>the \<open>finally\<close> block; the call returns\<close>
  "finally_block t s =
     (setFormState (s\<lparr>isAwaitingResponse := False\<rparr>))
       \<lparr>turns := filter (\<lambda>u. loadingIndicator u \<noteq> loadingIndicator t) (turns s)\<rparr>"

definition on_end :: "runtime \<Rightarrow> clock \<Rightarrow> turn \<Rightarrow> state \<Rightarrow> state" where
  \<comment> \<open>the stream is exhausted: the statements after the loop\<close>
  "on_end rt clk t s =
     (let s1 = with_element (loadingIndicator t)
                 (\<lambda>e. e\<lparr>rawText := Some (fullResponse t), decorated := True\<rparr>) s;
          s2 = saveCurrentChat rt clk (prompt t) s1
      in finally_block t s2)"

definition on_raise :: "turn \<Rightarrow> state \<Rightarrow> state" where
  \<comment> \<open>the \<open>catch\<close> block\<close>
  "on_raise t s =
     (let msg = (if regenerating t
                 then ''Oops! Something went wrong on regenerate. Please try again.''
                 else ''Oops! Something went wrong. Please try again.'');
          s1 = with_element (loadingIndicator t) (\<lambda>e. e\<lparr>body := TextContent msg\<rparr>) s
      in finally_block t s1)"

text \<open>
  What can happen to the application, one event at a time. A stream is addressed by the
  loading indicator of the call waiting for it; an event for a stream nobody waits for
  does nothing.
\<close>

datatype event =
    Input string
  | Submit string string
  | Regenerate clock string
  | Chunk nat string
  | End nat clock
  | Raise nat
  | NewChat
  | ContextMenu string
  | Delete bool

definition waiting :: "nat \<Rightarrow> state \<Rightarrow> turn option" where
  "waiting r s = find (\<lambda>t. loadingIndicator t = r) (turns s)"

fun step :: "runtime \<Rightarrow> state \<Rightarrow> event \<Rightarrow> state" where
  "step rt s (Input v) = s\<lparr>chatInput := v\<rparr>"
| "step rt s (Submit mid1 mid2) = handleFormSubmit mid1 mid2 s"
| "step rt s (Regenerate clk mid) = handleRegenerate rt clk mid s"
| "step rt s (Chunk r chunk) = (case waiting r s of None \<Rightarrow> s | Some t \<Rightarrow> on_chunk t chunk s)"
| "step rt s (End r clk) = (case waiting r s of None \<Rightarrow> s | Some t \<Rightarrow> on_end rt clk t s)"
| "step rt s (Raise r) = (case waiting r s of None \<Rightarrow> s | Some t \<Rightarrow> on_raise t s)"
| "step rt s NewChat = startNewChat s"
| "step rt s (ContextMenu chatId) = s\<lparr>contextMenuTarget := Some chatId\<rparr>"
| "step rt s (Delete confirm) = deleteChat rt confirm s"

definition run :: "runtime \<Rightarrow> state \<Rightarrow> event list \<Rightarrow> state" where
  "run rt s es = foldl (step rt) s es"


section \<open>Concrete inputs\<close>

text \<open>The globals as the module initialises them, with an empty local store.\<close>

definition init_state :: state where
  "init_state =
     \<lparr>isAwaitingResponse = False, currentChatId = None, chatHistory = [],
      settings_of = default_settings, localStorage = Map.empty, chatInput = [],
      contextMenuTarget = None, elements = Map.empty, chatContainer = [], nextRef = 0, turns = []\<rparr>"

text \<open>
  A runtime for evaluating the model on concrete inputs: no stored text decodes, a
  collection is serialised to the ids of its sessions, and a rendered fragment holds no
  element of class \<open>message-text\<close>.
\<close>

definition plain_runtime :: runtime where
  "plain_runtime =
     \<lparr>decode_history = (\<lambda>_. None), decode_settings = (\<lambda>_. None),
      JSON_stringify = (\<lambda>h. concat (map id_session h)), queryMessageText = (\<lambda>_. [])\<rparr>"

text \<open>A view that holds one user message.\<close>

definition one_user_message :: state where
  "one_user_message = appendMessage User (MessageText ''hello'') ''id_1'' init_state"


section \<open>Invariants used in the proofs\<close>

text \<open>Exactly one call is suspended, on the stream of the loading indicator \<open>r\<close>.\<close>

definition streaming :: "nat \<Rightarrow> turn \<Rightarrow> state \<Rightarrow> bool" where
  "streaming r t s \<longleftrightarrow> turns s = [t] \<and> loadingIndicator t = r \<and> elements s r \<noteq> None \<and> isAwaitingResponse s"

text \<open>At most one call is suspended, and the busy flag is set exactly while one is.\<close>

definition single_flight :: "state \<Rightarrow> bool" where
  "single_flight s \<longleftrightarrow> length (turns s) \<le> 1 \<and> (isAwaitingResponse s \<longleftrightarrow> turns s \<noteq> [])"


section \<open>Notions used in the proofs about the renderer\<close>

text \<open>A pattern that never matches the empty string.\<close>

definition consuming :: "'g regex \<Rightarrow> bool" where
  "consuming re \<longleftrightarrow> (\<forall>s g rest. re s = Some (g, rest) \<longrightarrow> length rest < length s)"




definition sentinel_char :: "char \<Rightarrow> bool" where
  "sentinel_char c \<longleftrightarrow> c \<in> set ''__CODEBLOCK_'' \<or> is_digit c"

text \<open>
  A text that no match of the pattern of step 4 can start in and leave: it is empty, or it
  ends with a character other than an underscore and a digit.
\<close>

definition clear_before :: "string \<Rightarrow> bool" where
  "clear_before x \<longleftrightarrow> x = [] \<or> (last x \<noteq> CHR ''_'' \<and> \<not> is_digit (last x))"


section \<open>Global replacement as a sequence of rewrites\<close>

lemma consuming_Nil: "consuming re \<Longrightarrow> re [] = None"
proof (cases "re []")
  case (Some a)
  assume "consuming re"
  with Some show ?thesis by (cases a) (force simp: consuming_def)
qed simp

lemma scan_Nil: "consuming re \<Longrightarrow> scan re [] = []"
  by (subst scan.simps) (simp add: consuming_Nil)

lemma scan_None: "re (c # cs) = None \<Longrightarrow> scan re (c # cs) = Lit c # scan re cs"
  by (subst scan.simps) simp

lemma scan_Some: "consuming re \<Longrightarrow> re s = Some (g, rest) \<Longrightarrow> scan re s = Match g # scan re rest"
  by (subst scan.simps) (auto simp: consuming_def)

lemma scan_induct [consumes 1, case_names Nil Lit Match]:
  assumes "consuming re"
    and "P []"
    and "\<And>c cs. re (c # cs) = None \<Longrightarrow> P cs \<Longrightarrow> P (c # cs)"
    and "\<And>s g rest. re s = Some (g, rest) \<Longrightarrow> P rest \<Longrightarrow> P s"
  shows "P s"
proof (induction s rule: length_induct)
  case (1 s)
  show ?case
  proof (cases "re s")
    case None
    then show ?thesis using assms(2,3) 1 by (cases s) auto
  next
    case (Some a)
    then obtain g rest where gr: "re s = Some (g, rest)" by (cases a) auto
    with assms(1) have "length rest < length s" by (auto simp: consuming_def)
    with 1 have "P rest" by blast
    with gr assms(4) show ?thesis by blast
  qed
qed

lemma replace_g_Nil: "consuming re \<Longrightarrow> replace_g re f [] = []"
  by (simp add: replace_g_def scan_Nil)

lemma replace_g_None: "re (c # cs) = None \<Longrightarrow> replace_g re f (c # cs) = c # replace_g re f cs"
  by (simp add: replace_g_def scan_None)

lemma replace_g_Some:
  "consuming re \<Longrightarrow> re s = Some (g, rest) \<Longrightarrow> replace_g re f s = f g @ replace_g re f rest"
  by (simp add: replace_g_def scan_Some)

text \<open>A global replace is a sequence of single rewrites, each in the context of what has
  been produced so far and of what remains to be scanned.\<close>

lemma replace_g_rewrites:
  assumes "consuming re"
    and "\<And>a s g rest. re s = Some (g, rest) \<Longrightarrow> Q (a @ s) \<Longrightarrow> Q (a @ f g @ rest)"
    and "Q (a @ s)"
  shows "Q (a @ replace_g re f s)"
  using assms(1,3)
proof (induction s arbitrary: a rule: scan_induct)
  case Nil
  then show ?case using assms(1) by (simp add: replace_g_Nil)
next
  case (Lit c cs)
  from Lit.prems have "Q ((a @ [c]) @ cs)" by simp
  then have "Q ((a @ [c]) @ replace_g re f cs)" by (rule Lit.IH)
  then show ?case using Lit.hyps by (simp add: replace_g_None)
next
  case (Match s g rest)
  from assms(2) [OF Match.hyps Match.prems] have "Q ((a @ f g) @ rest)" by simp
  then have "Q ((a @ f g) @ replace_g re f rest)" by (rule Match.IH)
  then show ?case using Match.hyps assms(1) by (simp add: replace_g_Some)
qed

lemma lazy_until_shape: "lazy_until X d s = Some (g, rest) \<Longrightarrow> s = g @ d @ rest"
proof (induction s arbitrary: g)
  case Nil
  then show ?case by (auto split: if_splits)
next
  case (Cons c cs)
  show ?case
  proof (cases "prefix d (c # cs)")
    case True
    with Cons.prems show ?thesis by (auto simp: prefix_def)
  next
    case False
    with Cons.prems obtain g' where "X c" "lazy_until X d cs = Some (g', rest)" "g = c # g'"
      by (auto split: if_splits option.splits)
    with Cons.IH show ?thesis by auto
  qed
qed

lemma greedy1_shape:
  "greedy1 X d s = Some (g, rest) \<Longrightarrow> s = g @ d # rest \<and> g \<noteq> [] \<and> (\<forall>c \<in> set g. X c)"
proof -
  assume a: "greedy1 X d s = Some (g, rest)"
  then have "g = takeWhile X s" "dropWhile X s = d # rest" "g \<noteq> []"
    by (auto simp: greedy1_def Let_def split: list.splits if_splits)
  moreover have "s = takeWhile X s @ dropWhile X s" by simp
  ultimately show ?thesis by (metis set_takeWhileD)
qed

lemma prefix_drop: "prefix d s \<Longrightarrow> n = length d \<Longrightarrow> \<exists>r. s = d @ r \<and> drop n s = r"
  by (auto simp: prefix_def)

lemma bold_re_shape:
  assumes "bold_re s = Some (g, rest)"
  shows "s = ''**'' @ g @ ''**'' @ rest"
proof -
  from assms have p: "prefix ''**'' s" and l: "lazy_until (\<lambda>c. \<not> is_line_terminator c) ''**'' (drop 2 s) = Some (g, rest)"
    by (simp_all add: bold_re_def split: if_splits)
  from prefix_drop [OF p, of 2] obtain r where "s = ''**'' @ r" "drop 2 s = r" by auto
  with lazy_until_shape [OF l] show ?thesis by simp
qed

lemma italic_re_shape:
  assumes "italic_re s = Some (g, rest)"
  shows "s = ''*'' @ g @ ''*'' @ rest"
proof -
  from assms have p: "prefix ''*'' s" and l: "lazy_until (\<lambda>c. \<not> is_line_terminator c) ''*'' (drop 1 s) = Some (g, rest)"
    by (simp_all add: italic_re_def split: if_splits)
  from prefix_drop [OF p, of 1] obtain r where "s = ''*'' @ r" "drop 1 s = r" by auto
  with lazy_until_shape [OF l] show ?thesis by simp
qed

lemma code_re_shape:
  assumes "code_re s = Some (g, rest)"
  shows "s = ''`'' @ g @ ''`'' @ rest \<and> g \<noteq> []"
proof -
  from assms have p: "prefix ''`'' s" and l: "greedy1 (\<lambda>c. c \<noteq> CHR ''`'') (CHR ''`'') (drop 1 s) = Some (g, rest)"
    by (simp_all add: code_re_def split: if_splits)
  from prefix_drop [OF p, of 1] obtain r where "s = ''`'' @ r" "drop 1 s = r" by auto
  with greedy1_shape [OF l] show ?thesis by simp
qed

lemma link_re_shape:
  assumes "link_re s = Some ((txt, url), rest)"
  shows "s = ''['' @ txt @ '']('' @ url @ '')'' @ rest"
proof -
  from assms have p: "prefix ''['' s" by (simp add: link_re_def split: if_splits)
  with assms obtain r where
    l1: "greedy1 (\<lambda>c. c \<noteq> CHR '']'') (CHR '']'') (drop 1 s) = Some (txt, r)"
    and q: "prefix ''('' r"
    and l2: "greedy1 (\<lambda>c. c \<noteq> CHR '')'') (CHR '')'') (drop 1 r) = Some (url, rest)"
    by (simp add: link_re_def split: if_splits option.splits prod.splits)
  from prefix_drop [OF p, of 1] obtain r0 where "s = ''['' @ r0" "drop 1 s = r0" by auto
  moreover from prefix_drop [OF q, of 1] obtain r1 where "r = ''('' @ r1" "drop 1 r = r1" by auto
  ultimately show ?thesis using greedy1_shape [OF l1] greedy1_shape [OF l2] by simp
qed

lemma fence_re_shape:
  assumes "fence_re s = Some ((lang, code), rest)"
  shows "s = ''```'' @ lang @ ''\<newline>'' @ code @ ''```'' @ rest \<and> (\<forall>c \<in> set lang. is_word c)"
proof -
  from assms have p: "prefix ''```'' s" by (simp add: fence_re_def split: if_splits)
  with assms obtain r' where
    la: "lang = takeWhile is_word (drop 3 s)"
    and d: "dropWhile is_word (drop 3 s) = CHR 0x0A # r'"
    and l: "lazy_until (\<lambda>_. True) ''```'' r' = Some (code, rest)"
    by (simp add: fence_re_def Let_def split: if_splits list.splits option.splits prod.splits)
  from prefix_drop [OF p, of 3] obtain r0 where r0: "s = ''```'' @ r0" "drop 3 s = r0" by auto
  have "r0 = takeWhile is_word r0 @ dropWhile is_word r0" by simp
  with la d r0 have "r0 = lang @ CHR 0x0A # r'" by simp
  with r0 lazy_until_shape [OF l]
  have "s = ''```'' @ lang @ ''\<newline>'' @ code @ ''```'' @ rest" by simp
  moreover have "\<forall>c \<in> set lang. is_word c" using la by (auto dest: set_takeWhileD)
  ultimately show ?thesis by simp
qed

lemma placeholder_re_shape:
  assumes "placeholder_re s = Some (g, rest)"
  shows "s = ''__CODEBLOCK_'' @ g @ ''__'' @ rest \<and> g \<noteq> [] \<and> (\<forall>c \<in> set g. is_digit c)"
proof -
  from assms have p: "prefix ''__CODEBLOCK_'' s" by (simp add: placeholder_re_def split: if_splits)
  with assms obtain r where
    l: "greedy1 is_digit (CHR ''_'') (drop 12 s) = Some (g, r)"
    and q: "prefix ''_'' r" and e: "rest = drop 1 r"
    by (simp add: placeholder_re_def split: if_splits option.splits prod.splits)
  from prefix_drop [OF p, of 12] obtain r0 where "s = ''__CODEBLOCK_'' @ r0" "drop 12 s = r0" by auto
  moreover from prefix_drop [OF q, of 1] obtain r1 where "r = ''_'' @ r1" "drop 1 r = r1" by auto
  ultimately show ?thesis using greedy1_shape [OF l] e by simp
qed

lemma placeholder_re_match:
  assumes "g \<noteq> []" and "\<forall>c \<in> set g. is_digit c"
  shows "placeholder_re (''__CODEBLOCK_'' @ g @ ''__'' @ rest) = Some (g, rest)"
proof -
  have n: "\<not> is_digit (CHR ''_'')" by (simp add: is_digit_def)
  from assms(2) n have "takeWhile is_digit (g @ ''__'' @ rest) = g"
    by (simp add: takeWhile_append2)
  moreover from assms(2) n have "dropWhile is_digit (g @ ''__'' @ rest) = ''__'' @ rest"
    by (simp add: dropWhile_append2)
  ultimately show ?thesis using assms(1)
    by (simp add: placeholder_re_def greedy1_def Let_def)
qed

lemma consuming_bold: "consuming bold_re"
  by (auto simp: consuming_def dest!: bold_re_shape)

lemma consuming_italic: "consuming italic_re"
  by (auto simp: consuming_def dest!: italic_re_shape)

lemma consuming_code: "consuming code_re"
  by (auto simp: consuming_def dest!: code_re_shape)

lemma consuming_link: "consuming link_re"
  by (auto simp: consuming_def dest!: link_re_shape)

lemma consuming_fence: "consuming fence_re"
  by (auto simp: consuming_def dest!: fence_re_shape)

lemma consuming_placeholder: "consuming placeholder_re"
  by (auto simp: consuming_def dest!: placeholder_re_shape)


section \<open>No unescaped script tag\<close>














lemma extract_blocks_Lit:
  "fst (extract_blocks (Lit c # segs) ps) = c # fst (extract_blocks segs ps)"
  "snd (extract_blocks (Lit c # segs) ps) = snd (extract_blocks segs ps)"
  by (simp_all add: split_beta)

lemma extract_blocks_Match0:
  "fst (extract_blocks (Match (lang, code) # segs) ps)
     = token (length ps) @ fst (extract_blocks segs (ps @ [code_block lang (escapeHTML (trim code))]))"
  "snd (extract_blocks (Match (lang, code) # segs) ps)
     = snd (extract_blocks segs (ps @ [code_block lang (escapeHTML (trim code))]))"
  by (simp_all add: split_beta Let_def)

lemmas extract_blocks_Match = extract_blocks_Match0

declare extract_blocks.simps(2,3) [simp del]

lemma parseMarkdown_steps:
  "parseMarkdown raw =
     replace_g placeholder_re (restore (snd (extract_blocks (scan fence_re raw) [])))
       (inline (escapeHTML (fst (extract_blocks (scan fence_re raw) []))))"
  by (simp add: parseMarkdown_def split_beta Let_def)

lemma replace_char_append: "replace_char c r (a @ b) = replace_char c r a @ replace_char c r b"
  by (simp add: replace_char_def)

lemma escapeHTML_append: "escapeHTML (a @ b) = escapeHTML a @ escapeHTML b"
  by (simp add: escapeHTML_def replace_char_append)

lemma escapeHTML_Nil: "escapeHTML [] = []"
  by (simp add: escapeHTML_def replace_char_def)

lemma escapeHTML_Cons:
  "escapeHTML (c # cs) =
     (if c = CHR ''<'' then ''&lt;'' else if c = CHR ''>'' then ''&gt;'' else [c]) @ escapeHTML cs"
  by (simp add: escapeHTML_def replace_char_def)













section \<open>Plain text survives the passes\<close>

















section \<open>The tokens reach step 4\<close>










lemma not_sentinel:
  "\<not> sentinel_char (CHR ''*'')" "\<not> sentinel_char (CHR ''`'')" "\<not> sentinel_char (CHR ''['')"
  "\<not> sentinel_char (CHR '']'')" "\<not> sentinel_char (CHR ''('')" "\<not> sentinel_char (CHR '')'')"
  "\<not> sentinel_char (CHR ''<'')" "\<not> sentinel_char (CHR ''>'')" "\<not> sentinel_char (CHR ''&'')"
  "\<not> sentinel_char (CHR '';'')" "\<not> sentinel_char (CHR ''/'')" "\<not> sentinel_char (CHR 0x22)"
  "\<not> sentinel_char (CHR '' '')" "\<not> sentinel_char (CHR ''='')"
  "\<not> sentinel_char (CHR ''a'')" "\<not> sentinel_char (CHR ''b'')" "\<not> sentinel_char (CHR ''c'')"
  "\<not> sentinel_char (CHR ''d'')" "\<not> sentinel_char (CHR ''e'')" "\<not> sentinel_char (CHR ''f'')"
  "\<not> sentinel_char (CHR ''g'')" "\<not> sentinel_char (CHR ''h'')" "\<not> sentinel_char (CHR ''k'')"
  "\<not> sentinel_char (CHR ''l'')" "\<not> sentinel_char (CHR ''m'')" "\<not> sentinel_char (CHR ''n'')"
  "\<not> sentinel_char (CHR ''o'')" "\<not> sentinel_char (CHR ''p'')" "\<not> sentinel_char (CHR ''r'')"
  "\<not> sentinel_char (CHR ''s'')" "\<not> sentinel_char (CHR ''t'')"
  by (simp_all add: sentinel_char_def is_digit_def)















lemma border:
  assumes "v @ t = ''__CODEBLOCK_''" and "''__CODEBLOCK_'' @ x = t @ y"
  shows "v = [] \<or> t = [] \<or> (t = ''_'' \<and> y = ''_CODEBLOCK_'' @ x)"
  using assms by (auto simp: append_eq_Cons_conv)


lemma blocks_length:
  "length ps \<le> length (snd (extract_blocks (scan fence_re s) ps))"
proof (induction s arbitrary: ps rule: scan_induct [OF consuming_fence])
  case 1
  then show ?case by (simp add: scan_Nil [OF consuming_fence])
next
  case (2 c cs)
  then show ?case by (simp add: scan_None extract_blocks_Lit)
next
  case (3 s g rest)
  obtain lang code where g: "g = (lang, code)" by (cases g)
  from 3(2) [of "ps @ [code_block lang (escapeHTML (trim code))]"] show ?case
    using 3(1) by (simp add: scan_Some [OF consuming_fence] g extract_blocks_Match)
qed



section \<open>The escaping invariant\<close>








section \<open>Placeholder collisions\<close>

lemma clear_before_append: "z \<noteq> [] \<Longrightarrow> clear_before (p @ z) = clear_before z"
  by (simp add: clear_before_def)

lemma position:
  assumes "x @ tk @ y = p @ d @ q" and "d \<noteq> []" and "tk \<noteq> []" and "set d \<inter> set tk = {}"
  shows "(\<exists>z. p = x @ tk @ z \<and> y = z @ d @ q) \<or> (\<exists>z. q = z @ tk @ y \<and> x = p @ d @ z)"
proof -
  from assms(1) [unfolded append_eq_append_conv2 [of x "tk @ y" p "d @ q"]]
  consider (L) us where "x = p @ us" "us @ tk @ y = d @ q"
    | (R) us where "x @ us = p" "tk @ y = us @ d @ q"
    by blast
  then show ?thesis
  proof cases
    case L
    from L(2) [unfolded append_eq_append_conv2 [of us "tk @ y" d q]]
    consider (L1) vs where "us = d @ vs" "vs @ tk @ y = q"
      | (L2) vs where "us @ vs = d" "tk @ y = vs @ q"
      by blast
    then show ?thesis
    proof cases
      case L1
      with L show ?thesis by auto
    next
      case L2
      show ?thesis
      proof (cases vs)
        case Nil
        with L L2 show ?thesis by auto
      next
        case (Cons v vs')
        with L2 assms(3) have "v \<in> set d" "v \<in> set tk" by (cases tk; auto)+
        with assms(4) show ?thesis by auto
      qed
    qed
  next
    case R
    from R(2) [unfolded append_eq_append_conv2 [of tk y us "d @ q"]]
    consider (R1) vs where "tk = us @ vs" "vs @ y = d @ q"
      | (R2) vs where "tk @ vs = us" "y = vs @ d @ q"
      by blast
    then show ?thesis
    proof cases
      case R1
      show ?thesis
      proof (cases vs)
        case Nil
        with R R1 show ?thesis by auto
      next
        case (Cons v vs')
        with R1 assms(2) have "v \<in> set d" "v \<in> set tk" by (cases d; auto)+
        with assms(4) show ?thesis by auto
      qed
    next
      case R2
      with R show ?thesis by auto
    qed
  qed
qed

lemma track_rewrite2:
  assumes d: "d1 \<noteq> []" "set d1 \<inter> set tk = {}" "d2 \<noteq> []" "set d2 \<inter> set tk = {}"
    and t: "t1 \<noteq> []" "clear_before t1" "t2 \<noteq> []" "clear_before t2"
    and tk: "tk \<noteq> []"
    and e: "a @ d1 @ g @ d2 @ rest = x @ tk @ y" and c: "clear_before x"
  shows "\<exists>x' y'. a @ t1 @ g @ t2 @ rest = x' @ tk @ y' \<and> clear_before x'"
proof -
  from position [OF e [symmetric] d(1) tk d(2)]
  consider (A) z where "a = x @ tk @ z"
    | (B) z where "g @ d2 @ rest = z @ tk @ y" "x = a @ d1 @ z" by blast
  then show ?thesis
  proof cases
    case A
    then have "a @ t1 @ g @ t2 @ rest = x @ tk @ (z @ t1 @ g @ t2 @ rest)" by simp
    with c show ?thesis by blast
  next
    case B
    from position [OF B(1) [symmetric] d(3) tk d(4)]
    consider (G) z2 where "g = z @ tk @ z2"
      | (R) z2 where "rest = z2 @ tk @ y" "z = g @ d2 @ z2" by blast
    then show ?thesis
    proof cases
      case G
      then have e': "a @ t1 @ g @ t2 @ rest = (a @ t1 @ z) @ tk @ (z2 @ t2 @ rest)" by simp
      have "clear_before (a @ t1 @ z)"
      proof (cases "z = []")
        case True
        with t(1,2) show ?thesis by (simp add: clear_before_append)
      next
        case False
        with c B(2) have "clear_before z" by (simp add: clear_before_append)
        with False show ?thesis
          using clear_before_append [of z "a @ t1"] by simp
      qed
      with e' show ?thesis by blast
    next
      case R
      then have e': "a @ t1 @ g @ t2 @ rest = (a @ t1 @ g @ t2 @ z2) @ tk @ y" by simp
      have "clear_before (a @ t1 @ g @ t2 @ z2)"
      proof (cases "z2 = []")
        case True
        with t(3,4) show ?thesis
          using clear_before_append [of t2 "a @ t1 @ g"] by simp
      next
        case False
        with c B(2) R(2) have "clear_before z2"
          using clear_before_append [of z2 "a @ d1 @ g @ d2"] by simp
        with False show ?thesis
          using clear_before_append [of z2 "a @ t1 @ g @ t2"] by simp
      qed
      with e' show ?thesis by blast
    qed
  qed
qed

lemma clear_before_swap:
  assumes "clear_before (p @ z)" and "t \<noteq> []" and "clear_before t"
  shows "clear_before ((q @ t) @ z)"
proof (cases "z = []")
  case True
  with assms(2,3) show ?thesis by (simp add: clear_before_append)
next
  case False
  with assms(1) show ?thesis by (simp add: clear_before_append)
qed

lemma track_rewrite3:
  assumes d: "d1 \<noteq> []" "set d1 \<inter> set tk = {}" "d2 \<noteq> []" "set d2 \<inter> set tk = {}"
      "d3 \<noteq> []" "set d3 \<inter> set tk = {}"
    and t: "t1 \<noteq> []" "clear_before t1" "t2 \<noteq> []" "clear_before t2" "t3 \<noteq> []" "clear_before t3"
    and tk: "tk \<noteq> []"
    and e: "a @ d1 @ g @ d2 @ h @ d3 @ rest = x @ tk @ y" and c: "clear_before x"
  shows "\<exists>x' y'. a @ t1 @ h @ t2 @ g @ t3 @ rest = x' @ tk @ y' \<and> clear_before x'"
proof -
  from position [OF e [symmetric] d(1) tk d(2)]
  consider (A) z where "a = x @ tk @ z"
    | (B) z where "g @ d2 @ h @ d3 @ rest = z @ tk @ y" "x = a @ d1 @ z" by blast
  then show ?thesis
  proof cases
    case A
    then have "a @ t1 @ h @ t2 @ g @ t3 @ rest = x @ tk @ (z @ t1 @ h @ t2 @ g @ t3 @ rest)" by simp
    with c show ?thesis by blast
  next
    case B
    from position [OF B(1) [symmetric] d(3) tk d(4)]
    consider (G) z2 where "g = z @ tk @ z2"
      | (C) z2 where "h @ d3 @ rest = z2 @ tk @ y" "z = g @ d2 @ z2" by blast
    then show ?thesis
    proof cases
      case G
      then have e': "a @ t1 @ h @ t2 @ g @ t3 @ rest = ((a @ t1 @ h @ t2) @ z) @ tk @ (z2 @ t3 @ rest)"
        by simp
      from c B(2) have "clear_before ((a @ d1) @ z)" by simp
      from clear_before_swap [OF this t(3,4), of "a @ t1 @ h"]
      have "clear_before ((a @ t1 @ h @ t2) @ z)" by simp
      with e' show ?thesis by blast
    next
      case C
      from position [OF C(1) [symmetric] d(5) tk d(6)]
      consider (H) z3 where "h = z2 @ tk @ z3"
        | (R) z3 where "rest = z3 @ tk @ y" "z2 = h @ d3 @ z3" by blast
      then show ?thesis
      proof cases
        case H
        then have e': "a @ t1 @ h @ t2 @ g @ t3 @ rest = ((a @ t1) @ z2) @ tk @ (z3 @ t2 @ g @ t3 @ rest)"
          by simp
        from c B(2) C(2) have "clear_before ((a @ d1 @ g @ d2) @ z2)" by simp
        from clear_before_swap [OF this t(1,2), of a]
        have "clear_before ((a @ t1) @ z2)" .
        with e' show ?thesis by blast
      next
        case R
        then have e': "a @ t1 @ h @ t2 @ g @ t3 @ rest = ((a @ t1 @ h @ t2 @ g @ t3) @ z3) @ tk @ y"
          by simp
        from c B(2) C(2) R(2) have "clear_before ((a @ d1 @ g @ d2 @ h @ d3) @ z3)" by simp
        from clear_before_swap [OF this t(5,6), of "a @ t1 @ h @ t2 @ g"]
        have "clear_before ((a @ t1 @ h @ t2 @ g @ t3) @ z3)" by simp
        with e' show ?thesis by blast
      qed
    qed
  qed
qed

text \<open>A text of the form the pattern of step 4 matches.\<close>

lemma sentinel_text:
  assumes "\<forall>c \<in> set ds. is_digit c"
  shows "\<forall>c \<in> set (''__CODEBLOCK_'' @ ds @ ''__''). sentinel_char c"
  using assms by (auto simp: sentinel_char_def)

lemma sentinel_notin:
  assumes "\<forall>c \<in> set tk. sentinel_char c" and "\<not> sentinel_char d"
  shows "(d \<in> set tk) = False"
  using assms by blast

lemma track_bold:
  assumes "\<forall>c \<in> set tk. sentinel_char c" and "tk \<noteq> []"
    and "\<exists>x y. s = x @ tk @ y \<and> clear_before x"
  shows "\<exists>x y. replace_g bold_re (\<lambda>g. ''<strong>'' @ g @ ''</strong>'') s = x @ tk @ y \<and> clear_before x"
proof -
  have "\<exists>x y. [] @ replace_g bold_re (\<lambda>g. ''<strong>'' @ g @ ''</strong>'') s = x @ tk @ y \<and> clear_before x"
  proof (rule replace_g_rewrites [OF consuming_bold, where Q = "\<lambda>s. \<exists>x y. s = x @ tk @ y \<and> clear_before x"])
    fix a s g rest
    assume m: "bold_re s = Some (g, rest)" and "\<exists>x y. a @ s = x @ tk @ y \<and> clear_before x"
    then obtain x y where q: "a @ s = x @ tk @ y" "clear_before x" by blast
    from bold_re_shape [OF m] q(1) have e: "a @ ''**'' @ g @ ''**'' @ rest = x @ tk @ y" by simp
    have "\<exists>x' y'. a @ ''<strong>'' @ g @ ''</strong>'' @ rest = x' @ tk @ y' \<and> clear_before x'"
      by (rule track_rewrite2 [OF _ _ _ _ _ _ _ _ assms(2) e q(2)])
        (simp_all add: sentinel_notin [OF assms(1)] not_sentinel clear_before_def is_digit_def)
    then show "\<exists>x y. a @ (''<strong>'' @ g @ ''</strong>'') @ rest = x @ tk @ y \<and> clear_before x"
      by simp
  qed (use assms(3) in simp)
  then show ?thesis by simp
qed


lemma track_italic:
  assumes "\<forall>c \<in> set tk. sentinel_char c" and "tk \<noteq> []"
    and "\<exists>x y. s = x @ tk @ y \<and> clear_before x"
  shows "\<exists>x y. replace_g italic_re (\<lambda>g. ''<em>'' @ g @ ''</em>'') s = x @ tk @ y \<and> clear_before x"
proof -
  have "\<exists>x y. [] @ replace_g italic_re (\<lambda>g. ''<em>'' @ g @ ''</em>'') s = x @ tk @ y \<and> clear_before x"
  proof (rule replace_g_rewrites [OF consuming_italic, where Q = "\<lambda>s. \<exists>x y. s = x @ tk @ y \<and> clear_before x"])
    fix a s g rest
    assume m: "italic_re s = Some (g, rest)" and "\<exists>x y. a @ s = x @ tk @ y \<and> clear_before x"
    then obtain x y where q: "a @ s = x @ tk @ y" "clear_before x" by blast
    from italic_re_shape [OF m] q(1) have e: "a @ ''*'' @ g @ ''*'' @ rest = x @ tk @ y" by simp
    have "\<exists>x' y'. a @ ''<em>'' @ g @ ''</em>'' @ rest = x' @ tk @ y' \<and> clear_before x'"
      by (rule track_rewrite2 [OF _ _ _ _ _ _ _ _ assms(2) e q(2)])
        (simp_all add: sentinel_notin [OF assms(1)] not_sentinel clear_before_def is_digit_def)
    then show "\<exists>x y. a @ (''<em>'' @ g @ ''</em>'') @ rest = x @ tk @ y \<and> clear_before x"
      by simp
  qed (use assms(3) in simp)
  then show ?thesis by simp
qed

lemma track_code:
  assumes "\<forall>c \<in> set tk. sentinel_char c" and "tk \<noteq> []"
    and "\<exists>x y. s = x @ tk @ y \<and> clear_before x"
  shows "\<exists>x y. replace_g code_re (\<lambda>g. ''<code>'' @ g @ ''</code>'') s = x @ tk @ y \<and> clear_before x"
proof -
  have "\<exists>x y. [] @ replace_g code_re (\<lambda>g. ''<code>'' @ g @ ''</code>'') s = x @ tk @ y \<and> clear_before x"
  proof (rule replace_g_rewrites [OF consuming_code, where Q = "\<lambda>s. \<exists>x y. s = x @ tk @ y \<and> clear_before x"])
    fix a s g rest
    assume m: "code_re s = Some (g, rest)" and "\<exists>x y. a @ s = x @ tk @ y \<and> clear_before x"
    then obtain x y where q: "a @ s = x @ tk @ y" "clear_before x" by blast
    from code_re_shape [OF m] q(1) have e: "a @ ''`'' @ g @ ''`'' @ rest = x @ tk @ y" by simp
    have "\<exists>x' y'. a @ ''<code>'' @ g @ ''</code>'' @ rest = x' @ tk @ y' \<and> clear_before x'"
      by (rule track_rewrite2 [OF _ _ _ _ _ _ _ _ assms(2) e q(2)])
        (simp_all add: sentinel_notin [OF assms(1)] not_sentinel clear_before_def is_digit_def)
    then show "\<exists>x y. a @ (''<code>'' @ g @ ''</code>'') @ rest = x @ tk @ y \<and> clear_before x"
      by simp
  qed (use assms(3) in simp)
  then show ?thesis by simp
qed

lemma track_link:
  assumes "\<forall>c \<in> set tk. sentinel_char c" and "tk \<noteq> []"
    and "\<exists>x y. s = x @ tk @ y \<and> clear_before x"
  shows "\<exists>x y. replace_g link_re link_template s = x @ tk @ y \<and> clear_before x"
proof -
  have "\<exists>x y. [] @ replace_g link_re link_template s = x @ tk @ y \<and> clear_before x"
  proof (rule replace_g_rewrites [OF consuming_link, where Q = "\<lambda>s. \<exists>x y. s = x @ tk @ y \<and> clear_before x"])
    fix a s g rest
    assume m: "link_re s = Some (g, rest)" and "\<exists>x y. a @ s = x @ tk @ y \<and> clear_before x"
    then obtain x y where q: "a @ s = x @ tk @ y" "clear_before x" by blast
    obtain t v where g: "g = (t, v)" by (cases g)
    from link_re_shape [OF m [unfolded g]] q(1)
    have e: "a @ ''['' @ t @ '']('' @ v @ '')'' @ rest = x @ tk @ y" by simp
    have "\<exists>x' y'. a @ ''<a href=\"'' @ v @ ''\" target=\"_blank\" rel=\"noopener noreferrer\">''
        @ t @ ''</a>'' @ rest = x' @ tk @ y' \<and> clear_before x'"
      by (rule track_rewrite3 [OF _ _ _ _ _ _ _ _ _ _ _ _ assms(2) e q(2)])
        (simp_all add: sentinel_notin [OF assms(1)] not_sentinel clear_before_def is_digit_def)
    then show "\<exists>x y. a @ link_template g @ rest = x @ tk @ y \<and> clear_before x"
      by (simp add: g link_template_def)
  qed (use assms(3) in simp)
  then show ?thesis by simp
qed

lemma track_inline:
  assumes "\<forall>c \<in> set tk. sentinel_char c" and "tk \<noteq> []"
    and "\<exists>x y. s = x @ tk @ y \<and> clear_before x"
  shows "\<exists>x y. inline s = x @ tk @ y \<and> clear_before x"
  unfolding inline_def
  by (intro track_link track_code track_italic track_bold assms)

lemma escapeHTML_id: "CHR ''<'' \<notin> set s \<Longrightarrow> CHR ''>'' \<notin> set s \<Longrightarrow> escapeHTML s = s"
  by (induction s) (auto simp: escapeHTML_Nil escapeHTML_Cons)

lemma clear_before_escapeHTML: "clear_before x \<Longrightarrow> clear_before (escapeHTML x)"
proof (induction x rule: rev_induct)
  case Nil
  then show ?case by (simp add: escapeHTML_Nil)
next
  case (snoc c x)
  have "escapeHTML (x @ [c]) = escapeHTML x @ escapeHTML [c]" by (rule escapeHTML_append)
  moreover have "escapeHTML [c] \<noteq> []" "clear_before (escapeHTML [c])"
    using snoc.prems by (auto simp: escapeHTML_Cons escapeHTML_Nil clear_before_def is_digit_def)
  ultimately show ?case by (simp add: clear_before_append)
qed

lemma track_escapeHTML:
  assumes "\<forall>c \<in> set tk. sentinel_char c" and "clear_before x"
  shows "escapeHTML (x @ tk @ y) = escapeHTML x @ tk @ escapeHTML y \<and> clear_before (escapeHTML x)"
proof -
  have "escapeHTML tk = tk"
    using sentinel_notin [OF assms(1)] by (intro escapeHTML_id) (simp_all add: not_sentinel)
  with assms(2) show ?thesis by (simp add: escapeHTML_append clear_before_escapeHTML)
qed

lemma placeholder_re_before:
  assumes cb: "clear_before v" and v: "v \<noteq> []" and ds: "ds \<noteq> []" "\<forall>c \<in> set ds. is_digit c"
  shows "placeholder_re (v @ ''__CODEBLOCK_'' @ ds @ ''__'' @ y)
    = (case placeholder_re v of None \<Rightarrow> None
       | Some (g, r) \<Rightarrow> Some (g, r @ ''__CODEBLOCK_'' @ ds @ ''__'' @ y))"
proof (cases "placeholder_re v")
  case (Some a)
  obtain g r where a: "a = (g, r)" by (cases a)
  from placeholder_re_shape [OF Some [unfolded a]]
  have e: "v @ ''__CODEBLOCK_'' @ ds @ ''__'' @ y
      = ''__CODEBLOCK_'' @ g @ ''__'' @ (r @ ''__CODEBLOCK_'' @ ds @ ''__'' @ y)"
    and g: "g \<noteq> []" "\<forall>c \<in> set g. is_digit c"
    by simp_all
  have "placeholder_re (v @ ''__CODEBLOCK_'' @ ds @ ''__'' @ y)
      = Some (g, r @ ''__CODEBLOCK_'' @ ds @ ''__'' @ y)"
    unfolding e using g by (rule placeholder_re_match)
  then show ?thesis by (simp only: Some a option.case prod.case)
next
  case None
  let ?tk = "''__CODEBLOCK_'' @ ds @ ''__''"
  from cb v have lv: "last v \<noteq> CHR ''_''" "\<not> is_digit (last v)" by (simp_all add: clear_before_def)
  have "placeholder_re (v @ ?tk @ y) = None"
  proof (rule ccontr)
    assume "placeholder_re (v @ ?tk @ y) \<noteq> None"
    then obtain g rest where m: "placeholder_re (v @ ?tk @ y) = Some (g, rest)" by auto
    note sh = placeholder_re_shape [OF m]
    from sh have g: "g \<noteq> []" "\<forall>c \<in> set g. is_digit c" by simp_all
    from sh have e: "v @ (?tk @ y) = (''__CODEBLOCK_'' @ g @ ''__'') @ rest" by simp
    from e [unfolded append_eq_append_conv2 [of v "?tk @ y" "''__CODEBLOCK_'' @ g @ ''__''" rest]]
    consider (In) us where "v = (''__CODEBLOCK_'' @ g @ ''__'') @ us"
      | (Over) us where "v @ us = ''__CODEBLOCK_'' @ g @ ''__''" "?tk @ y = us @ rest"
      by blast
    then show False
    proof cases
      case In
      from In have v': "v = ''__CODEBLOCK_'' @ g @ ''__'' @ us" by simp
      have "placeholder_re v = Some (g, us)"
        unfolding v' using g by (rule placeholder_re_match)
      with None show False by simp
    next
      case Over
      from Over(1) [symmetric, unfolded append_eq_append_conv2 [of "''__CODEBLOCK_''" "g @ ''__''" v us]]
      consider (A) t1 where "''__CODEBLOCK_'' = v @ t1" "t1 @ g @ ''__'' = us"
        | (B) t1 where "''__CODEBLOCK_'' @ t1 = v" "g @ ''__'' = t1 @ us"
        by blast
      then show False
      proof cases
        case A
        from A(2) Over(2) have "''__CODEBLOCK_'' @ (ds @ ''__'' @ y) = t1 @ (g @ ''__'' @ rest)" by simp
        from border [OF A(1) [symmetric] this] v
        consider "t1 = []" | "g @ ''__'' @ rest = ''_CODEBLOCK_'' @ ds @ ''__'' @ y" by auto
        then show False
        proof cases
          case 1
          with A(1) have "v = ''__CODEBLOCK_''" by simp
          then have "last v = CHR ''_''" by simp
          with lv(1) show False by simp
        next
          case 2
          with g(1) have "hd g = CHR ''_''" by (cases g) simp_all
          with g have "is_digit (CHR ''_'')" by (metis hd_in_set)
          then show False by (simp add: is_digit_def)
        qed
      next
        case B
        from B(1) have v': "v = ''__CODEBLOCK_'' @ t1" by simp
        from B(2) [unfolded append_eq_append_conv2 [of g "''__''" t1 us]]
        consider (B1) t2 where "g = t1 @ t2"
          | (B2) t2 where "g @ t2 = t1" "''__'' = t2 @ us"
          by blast
        then show False
        proof cases
          case B1
          show False
          proof (cases "t1 = []")
            case True
            with v' have "last v = CHR ''_''" by simp
            with lv(1) show False by simp
          next
            case False
            with v' have "last v = last t1" by simp
            moreover from False B1 have "last t1 \<in> set g" by simp
            ultimately show False using g(2) lv(2) by metis
          qed
        next
          case B2
          from B2(1) v' have v'': "v = ''__CODEBLOCK_'' @ g @ t2" by simp
          show False
          proof (cases "t2 = []")
            case True
            with v'' g(1) have "last v = last g" by simp
            moreover from g(1) have "last g \<in> set g" by simp
            ultimately show False using g(2) lv(2) by metis
          next
            case False
            from B2(2) [symmetric] False have "t2 = ''_'' \<or> t2 = ''__''"
              by (simp add: append_eq_Cons_conv) blast
            then have "last t2 = CHR ''_''" by auto
            with False v'' have "last v = CHR ''_''" by simp
            with lv(1) show False by simp
          qed
        qed
      qed
    qed
  qed
  with None show ?thesis by simp
qed

lemma clear_before_rest:
  assumes "clear_before s" and "s = m @ r"
  shows "clear_before r"
  using assms by (cases "r = []") (simp_all add: clear_before_def)

lemma restore_at:
  assumes "clear_before x" and "ds \<noteq> []" and "\<forall>c \<in> set ds. is_digit c"
  shows "replace_g placeholder_re f (x @ ''__CODEBLOCK_'' @ ds @ ''__'' @ y)
    = replace_g placeholder_re f x @ f ds @ replace_g placeholder_re f y"
  using assms(1)
proof (induction x rule: scan_induct [OF consuming_placeholder])
  case 1
  have "placeholder_re (''__CODEBLOCK_'' @ ds @ ''__'' @ y) = Some (ds, y)"
    using assms(2,3) by (rule placeholder_re_match)
  from replace_g_Some [OF consuming_placeholder this, of f] show ?case
    by (simp add: replace_g_Nil [OF consuming_placeholder])
next
  case (2 c cs)
  note n0 = 2(1) and IH = 2(2) and cb = 2(3)
  have e: "placeholder_re ((c # cs) @ ''__CODEBLOCK_'' @ ds @ ''__'' @ y)
      = (case placeholder_re (c # cs) of None \<Rightarrow> None
         | Some (g, r) \<Rightarrow> Some (g, r @ ''__CODEBLOCK_'' @ ds @ ''__'' @ y))"
    by (rule placeholder_re_before [OF cb _ assms(2,3)]) simp
  have "placeholder_re ((c # cs) @ ''__CODEBLOCK_'' @ ds @ ''__'' @ y) = None"
    by (simp only: e n0 option.case)
  then have n: "placeholder_re (c # cs @ ''__CODEBLOCK_'' @ ds @ ''__'' @ y) = None" by simp
  from cb have "clear_before cs" by (rule clear_before_rest [where m="[c]"]) simp
  from IH [OF this] show ?case
    using replace_g_None [where re=placeholder_re and f=f, OF n]
      replace_g_None [where re=placeholder_re and f=f, OF n0] by simp
next
  case (3 s g rest)
  note m0 = 3(1) and IH = 3(2) and cb = 3(3)
  have s: "s \<noteq> []" using m0 consuming_Nil [OF consuming_placeholder] by auto
  have m: "placeholder_re (s @ ''__CODEBLOCK_'' @ ds @ ''__'' @ y)
      = Some (g, rest @ ''__CODEBLOCK_'' @ ds @ ''__'' @ y)"
    by (simp only: placeholder_re_before [OF cb s assms(2,3)] m0 option.case prod.case)
  from placeholder_re_shape [OF m0] have "s = (''__CODEBLOCK_'' @ g @ ''__'') @ rest" by simp
  with cb have "clear_before rest" by (rule clear_before_rest)
  from IH [OF this] show ?case
    using replace_g_Some [OF consuming_placeholder m, of f]
      replace_g_Some [OF consuming_placeholder m0, of f] by simp
qed

text \<open>
  C10, as the code has it. Step 4 cannot tell a token from text that looks like one. Let the
  text left by step 1 hold \<open>__CODEBLOCK_\<close>, a non-empty run of digits and \<open>__\<close>, not
  directly preceded by an underscore or a digit. Then this occurrence reaches step 4, and
  step 4 replaces it: by the markup of the block with that index when the index is less
  than the number of blocks, and by the text \<open>undefined\<close> otherwise.
\<close>

theorem placeholder_collision:
  assumes "extract_blocks (scan fence_re raw) [] = (x @ ''__CODEBLOCK_'' @ ds @ ''__'' @ y, blocks)"
    and "ds \<noteq> []" and "\<forall>c \<in> set ds. is_digit c" and "clear_before x"
  shows "\<exists>x' y'.
      inline (escapeHTML (x @ ''__CODEBLOCK_'' @ ds @ ''__'' @ y)) = x' @ ''__CODEBLOCK_'' @ ds @ ''__'' @ y'
      \<and> parseMarkdown raw
          = replace_g placeholder_re (restore blocks) x'
            @ (if parseInt ds < length blocks then blocks ! parseInt ds else ''undefined'')
            @ replace_g placeholder_re (restore blocks) y'"
proof -
  let ?tk = "''__CODEBLOCK_'' @ ds @ ''__''"
  have tk: "\<forall>c \<in> set ?tk. sentinel_char c" "?tk \<noteq> []"
    using sentinel_text [OF assms(3)] by simp_all
  from track_escapeHTML [OF tk(1) assms(4), of y]
  have "\<exists>a b. escapeHTML (x @ ?tk @ y) = a @ ?tk @ b \<and> clear_before a" by blast
  from track_inline [OF tk this] obtain x' y' where
    i: "inline (escapeHTML (x @ ?tk @ y)) = x' @ ?tk @ y'" and c: "clear_before x'" by blast
  from assms(1) have p: "parseMarkdown raw
      = replace_g placeholder_re (restore blocks) (inline (escapeHTML (x @ ?tk @ y)))"
    by (simp add: parseMarkdown_steps)
  have "replace_g placeholder_re (restore blocks) (x' @ ''__CODEBLOCK_'' @ ds @ ''__'' @ y')
      = replace_g placeholder_re (restore blocks) x' @ restore blocks ds
        @ replace_g placeholder_re (restore blocks) y'"
    using c assms(2,3) by (rule restore_at)
  with i p have "parseMarkdown raw
      = replace_g placeholder_re (restore blocks) x' @ restore blocks ds
        @ replace_g placeholder_re (restore blocks) y'"
    by simp
  moreover have "restore blocks ds = (if parseInt ds < length blocks then blocks ! parseInt ds else ''undefined'')"
    by (simp add: restore_def Let_def)
  ultimately show ?thesis using i by auto
qed

theorem placeholder_collision_witness:
  "parseMarkdown ''See __CODEBLOCK_0__ and __CODEBLOCK_7__: ```js\<newline>x```''
     = ''See <pre><code class=\"language-js hljs\">x</code></pre> and undefined: <pre><code class=\"language-js hljs\">x</code></pre>''
   \<and> (\<exists>x' y'. parseMarkdown ''See __CODEBLOCK_0__ and __CODEBLOCK_7__: ```js\<newline>x```''
          = replace_g placeholder_re (restore [''<pre><code class=\"language-js hljs\">x</code></pre>'']) x'
            @ ''<pre><code class=\"language-js hljs\">x</code></pre>''
            @ replace_g placeholder_re (restore [''<pre><code class=\"language-js hljs\">x</code></pre>'']) y')"
proof -
  have e: "extract_blocks (scan fence_re ''See __CODEBLOCK_0__ and __CODEBLOCK_7__: ```js\<newline>x```'') []
      = (''See '' @ ''__CODEBLOCK_'' @ ''0'' @ ''__'' @ '' and __CODEBLOCK_7__: __CODEBLOCK_0__'',
         [''<pre><code class=\"language-js hljs\">x</code></pre>''])"
    by code_simp
  have o: "parseMarkdown ''See __CODEBLOCK_0__ and __CODEBLOCK_7__: ```js\<newline>x```''
     = ''See <pre><code class=\"language-js hljs\">x</code></pre> and undefined: <pre><code class=\"language-js hljs\">x</code></pre>''"
    by code_simp
  have p: "parseInt ''0'' = 0" by (simp add: parseInt_def digit_value_def)
  from placeholder_collision [OF e] p o show ?thesis
    by (simp add: is_digit_def clear_before_def) blast
qed

text \<open>
  The claim is wider. Where an earlier match runs into the occurrence, only that match is
  replaced and the rest of the occurrence stays; and an occurrence that is replaced by the
  markup of a block can be found again in the output, in the body of that block.
\<close>

theorem placeholder_collision_counterexample:
  "sublist ''__CODEBLOCK_2__'' ''__CODEBLOCK_1__CODEBLOCK_2__''
   \<and> parseMarkdown ''__CODEBLOCK_1__CODEBLOCK_2__'' = ''undefinedCODEBLOCK_2__''
   \<and> parseMarkdown ''__CODEBLOCK_0__```\<newline>__CODEBLOCK_0__```''
     = ''<pre><code class=\"language-plaintext hljs\">__CODEBLOCK_0__</code></pre><pre><code class=\"language-plaintext hljs\">__CODEBLOCK_0__</code></pre>''
   \<and> sublist ''__CODEBLOCK_0__'' (parseMarkdown ''__CODEBLOCK_0__```\<newline>__CODEBLOCK_0__```'')"
  by code_simp


section \<open>Fence priority\<close>

lemma parseMarkdown_fence_shields_bold:
  "parseMarkdown ''```js\<newline>**bold**\<newline>```''
     = ''<pre><code class=\"language-js hljs\">**bold**</code></pre>''"
  by code_simp

text \<open>
  C2. For the input of a fence tagged \<open>js\<close> whose body is \<open>**bold**\<close>, the renderer is to
  give a code block with the literal body and no \<open>strong\<close> element. The renderer with
  placeholders does (lemma above). The renderer of \<open>index.tsx\<close> rewrites the fence in place
  and then runs the bold pattern over the markup it has just produced: the body is
  rendered bold inside the code block.
\<close>

theorem parseMarkdown_index_bold_in_fence:
  "parseMarkdown_index ''```js\<newline>**bold**\<newline>```''
     = ''<pre><code class=\"language-js hljs\"><strong>bold</strong></code></pre>''"
  by code_simp


section \<open>Loading from the local store\<close>

text \<open>
  A stored text that is not JSON: both loaders let the \<open>SyntaxError\<close> of \<open>JSON.parse\<close>
  escape.
\<close>

theorem load_corrupt_counterexample:
  "loadHistoryFromStorage plain_runtime (init_state\<lparr>localStorage := [''chatHistory'' \<mapsto> ''oops'']\<rparr>)
     = Inl SyntaxError
   \<and> loadSettings plain_runtime (init_state\<lparr>localStorage := [''settings'' \<mapsto> ''oops'']\<rparr>)
     = Inl SyntaxError"
  by (simp add: loadHistoryFromStorage_def loadSettings_def JSON_parse_def init_state_def
      json_space_def json_value_start_def)

text \<open>
  C3, as the code has it. A missing key or an empty stored text gives the empty collection,
  respectively leaves the settings as they are (the defaults, at start-up); a stored text on
  which \<open>JSON.parse\<close> throws makes the loader throw.
\<close>

theorem load_storage:
  "(localStorage s1 ''chatHistory'' = None \<or> localStorage s1 ''chatHistory'' = Some []
      \<longrightarrow> loadHistoryFromStorage rt s1 = Inr (s1\<lparr>chatHistory := []\<rparr>))
   \<and> (localStorage s2 ''settings'' = None \<or> localStorage s2 ''settings'' = Some []
      \<longrightarrow> loadSettings rt s2 = Inr s2)
   \<and> (localStorage s3 ''chatHistory'' = Some v \<and> v \<noteq> []
        \<and> JSON_parse (decode_history rt) v = Inl SyntaxError
      \<longrightarrow> loadHistoryFromStorage rt s3 = Inl SyntaxError)
   \<and> (localStorage s4 ''settings'' = Some w \<and> w \<noteq> []
        \<and> JSON_parse (decode_settings rt) w = Inl SyntaxError
      \<longrightarrow> loadSettings rt s4 = Inl SyntaxError)"
  by (auto simp: loadHistoryFromStorage_def loadSettings_def)

theorem load_storage_witness:
  "loadHistoryFromStorage plain_runtime init_state = Inr (init_state\<lparr>chatHistory := []\<rparr>)
   \<and> loadSettings plain_runtime init_state = Inr init_state
   \<and> settings_of init_state = default_settings
   \<and> loadHistoryFromStorage plain_runtime (init_state\<lparr>localStorage := [''chatHistory'' \<mapsto> ''{not json'']\<rparr>)
       = Inl SyntaxError
   \<and> loadSettings plain_runtime (init_state\<lparr>localStorage := [''settings'' \<mapsto> ''{not json'']\<rparr>)
       = Inl SyntaxError"
  using load_storage [of init_state plain_runtime init_state
      "init_state\<lparr>localStorage := [''chatHistory'' \<mapsto> ''{not json'']\<rparr>" "''{not json''"
      "init_state\<lparr>localStorage := [''settings'' \<mapsto> ''{not json'']\<rparr>" "''{not json''"]
  by (simp add: init_state_def plain_runtime_def JSON_parse_def json_space_def json_value_start_def)


section \<open>Title derivation\<close>

text \<open>
  C7. When \<open>saveCurrentChat\<close> creates a session, it puts it in front of the collection and
  its title is the prompt when that has at most 30 characters, and otherwise the first 27
  characters of the prompt followed by three dots: 30 characters ending in three dots.
\<close>

theorem title_derivation:
  assumes "currentChatId s = None \<or> currentChatId s = Some []"
    and "getMessagesFromDOM rt clk s \<noteq> []"
  shows "tl (chatHistory (saveCurrentChat rt clk p s)) = chatHistory s
    \<and> title (hd (chatHistory (saveCurrentChat rt clk p s)))
        = (if length p \<le> 30 then p else take 27 p @ ''...'')
    \<and> (length p > 30 \<longrightarrow> length (title (hd (chatHistory (saveCurrentChat rt clk p s)))) = 30
          \<and> suffix ''...'' (title (hd (chatHistory (saveCurrentChat rt clk p s)))))"
  using assms
  by (auto simp: saveCurrentChat_def saveHistoryToStorage_def Let_def suffix_def)

lemma one_user_message_msgs:
  "getMessagesFromDOM plain_runtime clk one_user_message
     = [\<lparr>id_message = ''id_1'', role = User, parts_text = ''hello'', timestamp = toISOString clk\<rparr>]"
  by (simp add: getMessagesFromDOM_def one_user_message_def appendMessage_def init_state_def text_of_def)

theorem title_derivation_witness:
  "title (hd (chatHistory (saveCurrentChat plain_runtime \<lparr>dateNow = 1700000000000, toISOString = ''2023-11-14T22:13:20.000Z''\<rparr>
        ''0123456789012345678901234567890123456789'' one_user_message)))
     = ''012345678901234567890123456...''
   \<and> title (hd (chatHistory (saveCurrentChat plain_runtime \<lparr>dateNow = 1700000000000, toISOString = ''2023-11-14T22:13:20.000Z''\<rparr>
        ''0123456789'' one_user_message)))
     = ''0123456789''"
  using title_derivation [of one_user_message plain_runtime "\<lparr>dateNow = 1700000000000, toISOString = ''2023-11-14T22:13:20.000Z''\<rparr>" "''0123456789012345678901234567890123456789''"]
    title_derivation [of one_user_message plain_runtime "\<lparr>dateNow = 1700000000000, toISOString = ''2023-11-14T22:13:20.000Z''\<rparr>" "''0123456789''"]
  by (simp add: one_user_message_msgs) (simp add: one_user_message_def appendMessage_def init_state_def)


section \<open>Session isolation\<close>

lemma filter_remove1_distinct:
  "distinct (map f xs) \<Longrightarrow> a \<in> set xs \<Longrightarrow> filter (\<lambda>x. f x \<noteq> f a) xs = remove1 a xs"
proof (induction xs)
  case Nil
  then show ?case by simp
next
  case (Cons x xs)
  show ?case
  proof (cases "x = a")
    case True
    with Cons.prems have "\<forall>y \<in> set xs. f y \<noteq> f a" by (auto simp: image_iff)
    then have "filter (\<lambda>x. f x \<noteq> f a) xs = xs" by (simp add: filter_id_conv)
    with True show ?thesis by simp
  next
    case False
    with Cons.prems have "a \<in> set xs" "f x \<noteq> f a" by auto
    with Cons show ?thesis using False by simp
  qed
qed

text \<open>
  C9. In a collection whose sessions have distinct ids, deleting the session \<open>a\<close> (the
  context menu is open on it, its id is not empty, and the user confirms) removes \<open>a\<close>
  and nothing else: the collection becomes the old one without \<open>a\<close>, every other session
  stays in it as it was and in the same order, and the stored serialisation is that of the
  new collection.
\<close>

theorem deleteChat_removes_exactly:
  assumes "distinct (map id_session (chatHistory s))"
    and "a \<in> set (chatHistory s)"
    and "contextMenuTarget s = Some (id_session a)"
    and "id_session a \<noteq> []"
  shows "chatHistory (deleteChat rt True s) = remove1 a (chatHistory s)
    \<and> a \<notin> set (chatHistory (deleteChat rt True s))
    \<and> (\<forall>b \<in> set (chatHistory s). b \<noteq> a \<longrightarrow> b \<in> set (chatHistory (deleteChat rt True s)))
    \<and> localStorage (deleteChat rt True s) ''chatHistory''
        = Some (JSON_stringify rt (remove1 a (chatHistory s)))"
proof -
  have d: "distinct (chatHistory s)" using assms(1) by (simp add: distinct_map)
  have "chatHistory (deleteChat rt True s) = filter (\<lambda>x. id_session x \<noteq> id_session a) (chatHistory s)"
    using assms(3,4)
    by (simp add: deleteChat_def Let_def saveHistoryToStorage_def startNewChat_def hideContextMenu_def)
  then have e: "chatHistory (deleteChat rt True s) = remove1 a (chatHistory s)"
    using filter_remove1_distinct [OF assms(1,2)] by simp
  have "localStorage (deleteChat rt True s) ''chatHistory''
        = Some (JSON_stringify rt (filter (\<lambda>x. id_session x \<noteq> id_session a) (chatHistory s)))"
    using assms(3,4)
    by (simp add: deleteChat_def Let_def saveHistoryToStorage_def startNewChat_def hideContextMenu_def)
  then have l: "localStorage (deleteChat rt True s) ''chatHistory''
        = Some (JSON_stringify rt (remove1 a (chatHistory s)))"
    using filter_remove1_distinct [OF assms(1,2)] by simp
  show ?thesis using e l d by (auto simp: set_remove1_eq)
qed

theorem deleteChat_removes_exactly_witness:
  "chatHistory (deleteChat plain_runtime True
      (init_state\<lparr>chatHistory :=
          [\<lparr>id_session = ''chat_1'', title = ''A'', messages = [], createdAt = ''t1'', updatedAt = ''t1'',
            isPinned = False, isArchived = False, model = ''m'', temperature = 0, maxTokens = 1\<rparr>,
           \<lparr>id_session = ''chat_2'', title = ''B'', messages = [], createdAt = ''t2'', updatedAt = ''t3'',
            isPinned = True, isArchived = False, model = ''m'', temperature = 0, maxTokens = 1\<rparr>],
        contextMenuTarget := Some ''chat_1''\<rparr>))
   = [\<lparr>id_session = ''chat_2'', title = ''B'', messages = [], createdAt = ''t2'', updatedAt = ''t3'',
            isPinned = True, isArchived = False, model = ''m'', temperature = 0, maxTokens = 1\<rparr>]"
  using deleteChat_removes_exactly [of
      "init_state\<lparr>chatHistory :=
          [\<lparr>id_session = ''chat_1'', title = ''A'', messages = [], createdAt = ''t1'', updatedAt = ''t1'',
            isPinned = False, isArchived = False, model = ''m'', temperature = 0, maxTokens = 1\<rparr>,
           \<lparr>id_session = ''chat_2'', title = ''B'', messages = [], createdAt = ''t2'', updatedAt = ''t3'',
            isPinned = True, isArchived = False, model = ''m'', temperature = 0, maxTokens = 1\<rparr>],
        contextMenuTarget := Some ''chat_1''\<rparr>"
      "\<lparr>id_session = ''chat_1'', title = ''A'', messages = [], createdAt = ''t1'', updatedAt = ''t1'',
            isPinned = False, isArchived = False, model = ''m'', temperature = 0, maxTokens = 1\<rparr>"
      plain_runtime]
  by (simp add: init_state_def)


section \<open>Streaming\<close>

lemma run_Nil [simp]: "run rt s [] = s"
  by (simp add: run_def)

lemma run_Cons [simp]: "run rt s (e # es) = run rt (step rt s e) es"
  by (simp add: run_def)

lemma run_append [simp]: "run rt s (es @ fs) = run rt (run rt s es) fs"
  by (simp add: run_def)

lemma submit_streaming:
  fixes s :: state and m1 m2 :: string
  assumes "\<not> isAwaitingResponse s" "turns s = []" "trim (chatInput s) \<noteq> []"
  defines "s' \<equiv> handleFormSubmit m1 m2 s"
  shows "streaming (Suc (nextRef s))
           \<lparr>loadingIndicator = Suc (nextRef s), fullResponse = [], prompt = trim (chatInput s),
            regenerating = False\<rparr> s'"
    and "elements s' (Suc (nextRef s))
           = Some \<lparr>role_of = Model, messageId = m2, body = LoadingIndicator, rawText = None,
                   decorated = True\<rparr>"
    and "chatHistory s' = chatHistory s"
    and "localStorage s' ''chatHistory'' = localStorage s ''chatHistory''"
  using assms(1-3) unfolding s'_def
  by (simp_all add: handleFormSubmit_def Let_def start_turn_def appendMessage_def clearDraft_def
      setFormState_def streaming_def)


lemma chunk_streaming:
  fixes s :: state and rt :: runtime and r :: nat and c :: string
  assumes "streaming r t s"
  defines "s' \<equiv> step rt s (Chunk r c)"
  shows "streaming r (t\<lparr>fullResponse := fullResponse t @ c\<rparr>) s'"
    and "map_option body (elements s' r) = Some (InnerHTML (parseMarkdown (fullResponse t @ c)))"
    and "map_option role_of (elements s' r) = map_option role_of (elements s r)"
    and "map_option messageId (elements s' r) = map_option messageId (elements s r)"
    and "map_option decorated (elements s' r) = Some False"
    and "chatHistory s' = chatHistory s"
    and "localStorage s' = localStorage s"
  using assms(1) unfolding s'_def
  by (auto simp: streaming_def waiting_def on_chunk_def Let_def with_element_def)

lemma chunks_streaming:
  assumes "streaming r t s"
  shows "streaming r (t\<lparr>fullResponse := fullResponse t @ concat cs\<rparr>) (run rt s (map (Chunk r) cs))
    \<and> chatHistory (run rt s (map (Chunk r) cs)) = chatHistory s
    \<and> localStorage (run rt s (map (Chunk r) cs)) = localStorage s
    \<and> map_option role_of (elements (run rt s (map (Chunk r) cs)) r) = map_option role_of (elements s r)
    \<and> map_option messageId (elements (run rt s (map (Chunk r) cs)) r) = map_option messageId (elements s r)"
  using assms
proof (induction cs arbitrary: s t)
  case Nil
  then show ?case by simp
next
  case (Cons c cs)
  from chunk_streaming [OF Cons.prems, where rt=rt and c=c] Cons.IH [of "t\<lparr>fullResponse := fullResponse t @ c\<rparr>" "step rt s (Chunk r c)"]
  show ?case by simp
qed

lemma chunks_body:
  assumes "streaming r t s" "cs \<noteq> []"
  shows "map_option body (elements (run rt s (map (Chunk r) cs)) r)
           = Some (InnerHTML (parseMarkdown (fullResponse t @ concat cs)))
    \<and> map_option decorated (elements (run rt s (map (Chunk r) cs)) r) = Some False"
proof -
  from assms(2) obtain ds d where cs: "cs = ds @ [d]"
    by (metis rev_exhaust)
  let ?s = "run rt s (map (Chunk r) ds)"
  have st: "streaming r (t\<lparr>fullResponse := fullResponse t @ concat ds\<rparr>) ?s"
    using chunks_streaming [OF assms(1)] by blast
  from chunk_streaming(2,5) [OF st, where rt=rt and c=d] show ?thesis
    by (simp add: cs)
qed

lemma end_streaming:
  fixes s :: state and rt :: runtime and r :: nat and clk :: clock
  assumes "streaming r t s"
  defines "s' \<equiv> step rt s (End r clk)"
  shows "map_option rawText (elements s' r) = Some (Some (fullResponse t))"
    and "map_option decorated (elements s' r) = Some True"
    and "map_option body (elements s' r) = map_option body (elements s r)"
    and "map_option role_of (elements s' r) = map_option role_of (elements s r)"
    and "map_option messageId (elements s' r) = map_option messageId (elements s r)"
    and "\<not> isAwaitingResponse s'" and "turns s' = []"
  using assms(1) unfolding s'_def
  by (auto simp: streaming_def waiting_def on_end_def Let_def with_element_def finally_block_def
      setFormState_def saveCurrentChat_def saveHistoryToStorage_def)


text \<open>
  C5, as the code has it. After a submission and any non-empty sequence of stream deltas
  the placeholder shows the rendering of the concatenation of all deltas received so far.
\<close>

theorem stream_shows_whole_buffer:
  assumes "\<not> isAwaitingResponse s" and "turns s = []" and "trim (chatInput s) \<noteq> []" and "cs \<noteq> []"
  shows "map_option body
           (elements (run rt s (Submit m1 m2 # map (Chunk (Suc (nextRef s))) cs)) (Suc (nextRef s)))
         = Some (InnerHTML (parseMarkdown (concat cs)))"
  using chunks_body [OF submit_streaming(1) [OF assms(1-3)] assms(4), where rt=rt and ?m1.1=m1 and ?m2.1=m2]
  by simp

theorem stream_shows_whole_buffer_witness:
  "map_option body
     (elements (run plain_runtime (init_state\<lparr>chatInput := ''hi''\<rparr>)
        [Submit ''id_1'' ''id_2'', Chunk 1 ''**a'', Chunk 1 ''b**'']) 1)
   = Some (InnerHTML ''<strong>ab</strong>'')"
proof -
  have "parseMarkdown ''**ab**'' = ''<strong>ab</strong>''" by code_simp
  then show ?thesis
    using stream_shows_whole_buffer [of "init_state\<lparr>chatInput := ''hi''\<rparr>" "[''**a'', ''b**'']"
        plain_runtime "''id_1''" "''id_2''"]
    by (simp add: init_state_def trim_def is_space_def)
qed

text \<open>
  The claim adds that this is never the concatenation of the renderings of the deltas.
  For the deltas \<open>Hel\<close> and \<open>lo \<close> it is.
\<close>

theorem stream_counterexample:
  "map_option body
     (elements (run plain_runtime (init_state\<lparr>chatInput := ''hi''\<rparr>)
        [Submit ''id_1'' ''id_2'', Chunk 1 ''Hel'', Chunk 1 ''lo '']) 1)
   = Some (InnerHTML (parseMarkdown ''Hel'' @ parseMarkdown ''lo ''))"
  by code_simp

text \<open>
  C4, as the code has it. After a submission, a non-empty sequence of deltas and the end of
  the stream, the placeholder holds the fragment rendered from the raw text stored on it,
  which is the concatenation of the deltas, and \<open>processCodeBlocks\<close> has decorated the
  code blocks of that fragment.
\<close>

theorem finalized_turn_display:
  assumes "\<not> isAwaitingResponse s" and "turns s = []" and "trim (chatInput s) \<noteq> []" and "cs \<noteq> []"
  shows "elements (run rt s (Submit m1 m2 # map (Chunk (Suc (nextRef s))) cs @ [End (Suc (nextRef s)) clk]))
           (Suc (nextRef s))
         = Some \<lparr>role_of = Model, messageId = m2, body = InnerHTML (parseMarkdown (concat cs)),
                 rawText = Some (concat cs), decorated = True\<rparr>"
proof -
  let ?r = "Suc (nextRef s)"
  let ?t = "\<lparr>loadingIndicator = ?r, fullResponse = [], prompt = trim (chatInput s), regenerating = False\<rparr>"
  let ?s1 = "handleFormSubmit m1 m2 s"
  let ?s2 = "run rt ?s1 (map (Chunk ?r) cs)"
  let ?s3 = "step rt ?s2 (End ?r clk)"
  note sub = submit_streaming [OF assms(1-3), where ?m1.0=m1 and ?m2.0=m2]
  note run = chunks_streaming [OF sub(1), where rt=rt and cs=cs]
  note bod = chunks_body [OF sub(1) assms(4), where rt=rt]
  from run have st: "streaming ?r (?t\<lparr>fullResponse := concat cs\<rparr>) ?s2" by simp
  note fin = end_streaming [OF st, where rt=rt and clk=clk]
  from fin(1-5) bod run sub(2)
  have "map_option rawText (elements ?s3 ?r) = Some (Some (concat cs))"
    and "map_option decorated (elements ?s3 ?r) = Some True"
    and "map_option body (elements ?s3 ?r) = Some (InnerHTML (parseMarkdown (concat cs)))"
    and "map_option role_of (elements ?s3 ?r) = Some Model"
    and "map_option messageId (elements ?s3 ?r) = Some m2"
    by simp_all
  then have "elements ?s3 ?r = Some \<lparr>role_of = Model, messageId = m2, body = InnerHTML (parseMarkdown (concat cs)),
                 rawText = Some (concat cs), decorated = True\<rparr>"
    by (cases "elements ?s3 ?r") auto
  then show ?thesis by simp
qed

theorem finalized_turn_display_witness:
  "elements (run plain_runtime (init_state\<lparr>chatInput := ''hi''\<rparr>)
        [Submit ''id_1'' ''id_2'', Chunk 1 ''**a'', Chunk 1 ''b**'',
         End 1 \<lparr>dateNow = 5, toISOString = ''now''\<rparr>]) 1
   = Some \<lparr>role_of = Model, messageId = ''id_2'', body = InnerHTML ''<strong>ab</strong>'',
           rawText = Some ''**ab**'', decorated = True\<rparr>"
proof -
  have "parseMarkdown ''**ab**'' = ''<strong>ab</strong>''" by code_simp
  then show ?thesis
    using finalized_turn_display [of "init_state\<lparr>chatInput := ''hi''\<rparr>" "[''**a'', ''b**'']"
        plain_runtime "''id_1''" "''id_2''" "\<lparr>dateNow = 5, toISOString = ''now''\<rparr>"]
    by (simp add: init_state_def trim_def is_space_def)
qed

text \<open>
  A stream that ends without a delta leaves the loading indicator in place, with the empty
  string as raw text: what is displayed is not the rendering of the raw text.
\<close>

theorem finalized_turn_counterexample:
  "elements (run plain_runtime (init_state\<lparr>chatInput := ''hi''\<rparr>)
        [Submit ''id_1'' ''id_2'', End 1 \<lparr>dateNow = 5, toISOString = ''now''\<rparr>]) 1
   = Some \<lparr>role_of = Model, messageId = ''id_2'', body = LoadingIndicator,
           rawText = Some '''', decorated = True\<rparr>"
  by code_simp


section \<open>Failure of a stream\<close>




section \<open>Busy gating\<close>

lemma waiting_single:
  "length (turns s) \<le> 1 \<Longrightarrow> waiting r s = Some t \<Longrightarrow> turns s = [t] \<and> loadingIndicator t = r"
  by (cases "turns s") (auto simp: waiting_def split: if_splits)

lemma step_single_flight: "single_flight s \<Longrightarrow> single_flight (step rt s e)"
proof (cases e)
  case (Chunk r c)
  assume inv: "single_flight s"
  show ?thesis
  proof (cases "waiting r s")
    case None
    with inv Chunk show ?thesis by simp
  next
    case (Some t)
    with inv waiting_single [of s r t] have "turns s = [t]" "loadingIndicator t = r"
      by (auto simp: single_flight_def)
    with inv Some Chunk show ?thesis
      by (auto simp: single_flight_def on_chunk_def Let_def with_element_def split: option.splits)
  qed
next
  case (End r clk)
  assume inv: "single_flight s"
  show ?thesis
  proof (cases "waiting r s")
    case None
    with inv End show ?thesis by simp
  next
    case (Some t)
    with inv waiting_single [of s r t] have "turns s = [t]" "loadingIndicator t = r"
      by (auto simp: single_flight_def)
    with inv Some End show ?thesis
      by (auto simp: single_flight_def on_end_def Let_def with_element_def finally_block_def
          setFormState_def saveCurrentChat_def saveHistoryToStorage_def split: option.splits)
  qed
next
  case (Raise r)
  assume inv: "single_flight s"
  show ?thesis
  proof (cases "waiting r s")
    case None
    with inv Raise show ?thesis by simp
  next
    case (Some t)
    with inv waiting_single [of s r t] have "turns s = [t]" "loadingIndicator t = r"
      by (auto simp: single_flight_def)
    with inv Some Raise show ?thesis
      by (auto simp: single_flight_def on_raise_def Let_def with_element_def finally_block_def
          setFormState_def split: option.splits)
  qed
qed (auto simp: single_flight_def handleFormSubmit_def handleRegenerate_def Let_def start_turn_def
      appendMessage_def clearDraft_def setFormState_def remove_last_model_def startNewChat_def
      deleteChat_def hideContextMenu_def saveHistoryToStorage_def split: option.splits)

lemma run_single_flight: "single_flight s \<Longrightarrow> single_flight (run rt s es)"
  by (induction es arbitrary: s) (auto simp: step_single_flight)

text \<open>
  C8. In every state the application reaches from an idle one, at most one model turn is in
  flight, and while the busy flag is set a submission and a regenerate request leave the
  state as it is: no message is appended and no stream is started.
\<close>

theorem busy_gating:
  assumes "\<not> isAwaitingResponse s0" and "turns s0 = []"
  shows "length (turns (run rt s0 es)) \<le> 1
    \<and> (isAwaitingResponse (run rt s0 es) \<longrightarrow>
          step rt (run rt s0 es) (Submit m1 m2) = run rt s0 es
          \<and> step rt (run rt s0 es) (Regenerate clk m3) = run rt s0 es)"
proof -
  have "single_flight s0" using assms by (simp add: single_flight_def)
  then have "single_flight (run rt s0 es)" by (rule run_single_flight)
  then show ?thesis
    by (simp add: single_flight_def handleFormSubmit_def handleRegenerate_def)
qed

theorem busy_gating_witness:
  "isAwaitingResponse (run plain_runtime init_state [Input ''hi'', Submit ''id_1'' ''id_2''])
   \<and> step plain_runtime (run plain_runtime init_state [Input ''hi'', Submit ''id_1'' ''id_2''])
        (Submit ''id_3'' ''id_4'')
      = run plain_runtime init_state [Input ''hi'', Submit ''id_1'' ''id_2'']
   \<and> step plain_runtime (run plain_runtime init_state [Input ''hi'', Submit ''id_1'' ''id_2''])
        (Regenerate \<lparr>dateNow = 5, toISOString = ''now''\<rparr> ''id_5'')
      = run plain_runtime init_state [Input ''hi'', Submit ''id_1'' ''id_2'']
   \<and> length (turns (run plain_runtime init_state
        [Input ''hi'', Submit ''id_1'' ''id_2'', Input ''more'', Submit ''id_3'' ''id_4''])) \<le> 1"
proof -
  have a: "isAwaitingResponse (run plain_runtime init_state [Input ''hi'', Submit ''id_1'' ''id_2''])"
    by (simp add: init_state_def handleFormSubmit_def trim_def is_space_def Let_def start_turn_def
        appendMessage_def clearDraft_def setFormState_def)
  have i: "\<not> isAwaitingResponse init_state" "turns init_state = []"
    by (simp_all add: init_state_def)
  show ?thesis
    using a busy_gating [OF i, of plain_runtime "[Input ''hi'', Submit ''id_1'' ''id_2'']"
        "''id_3''" "''id_4''" "\<lparr>dateNow = 5, toISOString = ''now''\<rparr>" "''id_5''"]
      busy_gating [OF i, of plain_runtime
        "[Input ''hi'', Submit ''id_1'' ''id_2'', Input ''more'', Submit ''id_3'' ''id_4'']"
        "''id_3''" "''id_4''" "\<lparr>dateNow = 5, toISOString = ''now''\<rparr>" "''id_5''"]
    by blast
qed

end
